theory Spec2Isabelle
  imports Complex_Main
begin

section \<open>The NIFTY candle loader (scripts/load\_nifty\_candles.py)\<close>

text \<open>
  The script is a linear pipeline: \<open>fetch_candles\<close> downloads a dataframe and normalises
  it, \<open>load_to_db\<close> upserts its rows into \<open>replay_candles\<close> in batches of 500, and
  \<open>verify\<close> runs one aggregate query. Everything the script receives from outside is an
  explicit input of the model: the dataframe the provider returns, the tz database's
  entries for Asia/Kolkata before 1970, whether each of the two \<open>psycopg2.connect\<close> calls
  succeeds, what each \<open>cur.execute\<close> of the loader does, which \<open>conn.commit()\<close> raises,
  and whether the query of \<open>verify\<close> raises.
\<close>

subsection \<open>Data\<close>

text \<open>
  A pandas float cell is NaN (what \<open>dropna\<close> and \<open>fillna\<close> look for), one of the two
  infinities, or a finite number. No arithmetic is done on prices, so the finite values
  are kept as reals.
\<close>

datatype pyfloat = NaN | PosInf | NegInf | Fin real

text \<open>
  Time zones appear by name in the source (\<open>"Asia/Kolkata"\<close>, \<open>"UTC"\<close>); a provider
  column may carry any other zone, modelled by a fixed offset from UTC in seconds.
\<close>

datatype zone = UTC | Asia_Kolkata | FixedOffset int

text \<open>
  The offset of Asia/Kolkata comes from the tz database and depends on the time: it has
  been +05:30 without a transition since 1945, and was +06:30 during part of the years
  before. The model fixes +05:30 (19800 s) from 1970 on and takes the
  database's content for earlier times as given: \<open>wall_offset t\<close> is the offset of the
  wall-clock reading \<open>t\<close>, or \<open>None\<close> when that reading does not exist or is ambiguous
  (\<open>tz_localize\<close> then raises, as \<open>ambiguous\<close> and \<open>nonexistent\<close> are left at
  \<open>'raise'\<close>), and \<open>utc_offset u\<close> is the offset in force at the instant \<open>u\<close>.
\<close>

record tzdata =
  wall_offset :: "int \<Rightarrow> int option"
  utc_offset :: "int \<Rightarrow> int"

text \<open>The UTC instant of a wall-clock reading in a zone, where there is exactly one.\<close>

fun localize :: "tzdata \<Rightarrow> zone \<Rightarrow> int \<Rightarrow> int option" where
  "localize db UTC t = Some t"
| "localize db (FixedOffset s) t = Some (t - s)"
| "localize db Asia_Kolkata t =
     (if 0 \<le> t then Some (t - 19800) else map_option (\<lambda>off. t - off) (wall_offset db t))"

text \<open>The wall-clock reading of an instant in a zone.\<close>

fun wall_clock :: "tzdata \<Rightarrow> zone \<Rightarrow> int \<Rightarrow> int" where
  "wall_clock db UTC u = u"
| "wall_clock db (FixedOffset s) u = u + s"
| "wall_clock db Asia_Kolkata u = (if 0 \<le> u then u + 19800 else u + utc_offset db u)"

text \<open>
  A row of the frame \<open>yf.download\<close> returns, after \<open>reset_index\<close>: the index
  (\<open>Datetime\<close>) and the five columns the script keeps. Timestamps are the integers
  pandas stores, in seconds: for a timezone-aware column the UTC instant, for a naive
  column the wall-clock reading.
\<close>

record raw_row =
  Datetime :: int
  Open :: pyfloat
  High :: pyfloat
  Low :: pyfloat
  Close :: pyfloat
  Volume :: pyfloat

text \<open>
  A row after the rename of line 65. The volume is a float until line 90 casts it, so the
  record is polymorphic in the volume's type.
\<close>

record 'v ohlcv =
  candle_time :: int
  open_px :: pyfloat
  high :: pyfloat
  low :: pyfloat
  close :: pyfloat
  volume :: 'v

text \<open>A dataframe: the timezone of its datetime column (\<open>.dt.tz\<close>) and its rows.\<close>

record 'r frame =
  tz :: "zone option"
  rows :: "'r list"

text \<open>A row of the table \<open>replay_candles\<close>: the seven bound values of the INSERT.\<close>

record candle = "int ohlcv" +
  symbol :: string

type_synonym replay_candles = "candle list"

text \<open>
  \<open>SystemExit n\<close> is \<open>sys.exit(n)\<close>. The others are exceptions nothing in the script
  catches: \<open>OperationalError\<close> from \<open>psycopg2.connect\<close> in \<open>verify\<close>, \<open>Psycopg2Error\<close>
  (\<open>psycopg2.Error\<close>, whichever subclass) from \<open>conn.commit()\<close> or from the query of
  \<open>verify\<close>, the \<open>TypeError\<close> pandas raises when \<open>tz_convert\<close> meets a naive column or
  \<open>tz_localize(zone)\<close> an aware one, \<open>AmbiguousTimeError\<close> (or \<open>NonExistentTimeError\<close>)
  from \<open>tz_localize\<close>, and \<open>IntCastingNaNError\<close> from \<open>astype(int)\<close>.
\<close>

datatype exn =
  SystemExit int | OperationalError | Psycopg2Error | TypeError | AmbiguousTimeError
  | IntCastingNaNError

subsection \<open>Config\<close>

definition SYMBOL :: string where
  "SYMBOL = ''NIFTY50''"

definition BATCH :: nat where
  "BATCH = 500"

subsection \<open>fetch\_candles\<close>

definition rename :: "raw_row \<Rightarrow> pyfloat ohlcv" where
  "rename r = \<lparr>candle_time = Datetime r, open_px = Open r, high = High r,
               low = Low r, close = Close r, volume = Volume r\<rparr>"

text \<open>
  \<open>df.dropna(subset=["open", "high", "low", "close"])\<close>: only NaN counts as missing, an
  infinite price is kept.
\<close>

definition notna :: "('v, 'm) ohlcv_scheme \<Rightarrow> bool" where
  "notna r = (open_px r \<noteq> NaN \<and> high r \<noteq> NaN \<and> low r \<noteq> NaN \<and> close r \<noteq> NaN)"

definition dropna :: "'v ohlcv list \<Rightarrow> 'v ohlcv list" where
  "dropna rs = filter notna rs"

text \<open>
  The three \<open>.dt\<close> operations on the datetime column. \<open>tz_localize zone\<close> reads a naive
  wall-clock value as local time of the zone and stores its UTC instant, and raises when
  one of the readings has no single instant; \<open>tz_convert\<close> changes the zone of an aware
  column and keeps the instants; \<open>tz_localize(None)\<close> replaces each instant by the
  wall-clock reading in the column's zone.
\<close>

definition set_time :: "(int \<Rightarrow> int) \<Rightarrow> 'v ohlcv \<Rightarrow> 'v ohlcv" where
  "set_time f r = r\<lparr>candle_time := f (candle_time r)\<rparr>"

definition localize_row :: "tzdata \<Rightarrow> zone \<Rightarrow> 'v ohlcv \<Rightarrow> 'v ohlcv option" where
  "localize_row db z r = map_option (\<lambda>u. set_time (\<lambda>t. u) r) (localize db z (candle_time r))"

definition tz_localize :: "tzdata \<Rightarrow> zone \<Rightarrow> 'v ohlcv frame \<Rightarrow> exn + 'v ohlcv frame" where
  "tz_localize db z df =
     (case tz df of
        Some _ \<Rightarrow> Inl TypeError
      | None \<Rightarrow>
          (case those (map (localize_row db z) (rows df)) of
             None \<Rightarrow> Inl AmbiguousTimeError
           | Some rs \<Rightarrow> Inr \<lparr>tz = Some z, rows = rs\<rparr>))"

definition tz_convert :: "zone \<Rightarrow> 'v ohlcv frame \<Rightarrow> exn + 'v ohlcv frame" where
  "tz_convert z df =
     (case tz df of
        None \<Rightarrow> Inl TypeError
      | Some _ \<Rightarrow> Inr \<lparr>tz = Some z, rows = rows df\<rparr>)"

definition tz_localize_None :: "tzdata \<Rightarrow> 'v ohlcv frame \<Rightarrow> 'v ohlcv frame" where
  "tz_localize_None db df =
     (case tz df of
        None \<Rightarrow> df
      | Some z \<Rightarrow> \<lparr>tz = None, rows = map (set_time (wall_clock db z)) (rows df)\<rparr>)"

text \<open>
  \<open>fillna(0)\<close> on one volume cell, and \<open>astype(int)\<close>: the target is \<open>int64\<close>. A finite
  float is truncated towards zero; outside the range of \<open>int64\<close> the conversion gives
  \<open>-2^63\<close> (what the conversion instruction of x86-64 returns). pandas refuses the whole
  column with \<open>IntCastingNaNError\<close> when a cell is not finite.
\<close>

definition fillna0 :: "pyfloat \<Rightarrow> pyfloat" where
  "fillna0 v = (case v of NaN \<Rightarrow> Fin 0 | _ \<Rightarrow> v)"

definition int64_of_float :: "real \<Rightarrow> int" where
  "int64_of_float x =
     (let n = (if 0 \<le> x then \<lfloor>x\<rfloor> else \<lceil>x\<rceil>)
      in if - (2 ^ 63) \<le> n \<and> n < 2 ^ 63 then n else - (2 ^ 63))"

definition astype_int :: "pyfloat \<Rightarrow> int option" where
  "astype_int v = (case v of Fin x \<Rightarrow> Some (int64_of_float x) | _ \<Rightarrow> None)"

definition cast_volume :: "pyfloat ohlcv \<Rightarrow> int ohlcv option" where
  "cast_volume r =
     map_option
       (\<lambda>v. \<lparr>candle_time = candle_time r, open_px = open_px r, high = high r,
             low = low r, close = close r, volume = v\<rparr>)
       (astype_int (fillna0 (volume r)))"

text \<open>
  \<open>fetch_candles\<close>, from the frame \<open>yf.download\<close> returned (lines 53 to 93). The
  flattening of a column MultiIndex and the selection of the six columns do not change
  the cells that are kept and are not modelled; \<open>yf.download\<close> is taken to return a
  frame with the six columns.
\<close>

definition fetch_candles :: "tzdata \<Rightarrow> raw_row frame \<Rightarrow> exn + int ohlcv frame" where
  "fetch_candles db downloaded =
     (if rows downloaded = [] then Inl (SystemExit 1)
      else
        let df = \<lparr>tz = tz downloaded, rows = dropna (map rename (rows downloaded))\<rparr>;
            utc = (if tz df = None
                   then (case tz_localize db Asia_Kolkata df of
                           Inl e \<Rightarrow> Inl e
                         | Inr local \<Rightarrow> tz_convert UTC local)
                   else tz_convert UTC df)
        in case utc of
             Inl e \<Rightarrow> Inl e
           | Inr aware \<Rightarrow>
               let naive = tz_localize_None db aware
               in case those (map cast_volume (rows naive)) of
                    None \<Rightarrow> Inl IntCastingNaNError
                  | Some rs \<Rightarrow> Inr \<lparr>tz = tz naive, rows = rs\<rparr>)"

subsection \<open>load\_to\_db\<close>

text \<open>
  The key of the unique index the INSERT names in \<open>ON CONFLICT (symbol, candle_time)\<close>.
\<close>

definition key :: "candle \<Rightarrow> string \<times> int" where
  "key c = (symbol c, candle_time c)"

text \<open>
  One \<open>INSERT ... ON CONFLICT (symbol, candle_time) DO NOTHING\<close> that does not raise:
  the new table and \<open>cur.rowcount\<close>.
\<close>

definition execute_insert :: "replay_candles \<Rightarrow> candle \<Rightarrow> replay_candles \<times> nat" where
  "execute_insert t c = (if key c \<in> set (map key t) then (t, 0) else (t @ [c], 1))"

definition bind_params :: "int ohlcv \<Rightarrow> candle" where
  "bind_params r = \<lparr>candle_time = candle_time r, open_px = open_px r, high = high r,
                    low = low r, close = close r, volume = volume r, symbol = SYMBOL\<rparr>"

text \<open>
  What can go wrong in one \<open>cur.execute\<close>: psycopg2 raises before the statement reaches
  the server, which leaves the open transaction as it was, or the server rejects the
  statement, which aborts the open transaction. In an aborted transaction every further
  statement raises, and \<open>conn.commit()\<close> ends it with a rollback.
\<close>

datatype fault = ClientError | ServerError

text \<open>
  What the inner loop changes: the table as the open transaction sees it, whether that
  transaction is aborted, the two counters, and the \<open>[WARN]\<close> lines (the \<open>candle_time\<close>
  each one prints).
\<close>

record cursor =
  table :: replay_candles
  aborted :: bool
  inserted :: nat
  skipped :: nat
  warnings :: "int list"

text \<open>
  The body of the inner loop for one row (lines 121 to 135). \<open>fault\<close> is what goes wrong
  in \<open>cur.execute\<close> for this row, if anything; the \<open>except\<close> branch prints the warning
  and counts the row as skipped. The script issues no rollback.
\<close>

definition insert_row :: "fault option \<Rightarrow> int ohlcv \<Rightarrow> cursor \<Rightarrow> cursor" where
  "insert_row fault r c =
     (if aborted c \<or> fault \<noteq> None
      then c\<lparr>aborted := aborted c \<or> fault = Some ServerError,
             skipped := skipped c + 1, warnings := warnings c @ [candle_time r]\<rparr>
      else
        let (t', rowcount) = execute_insert (table c) (bind_params r)
        in if rowcount > 0
           then c\<lparr>table := t', inserted := inserted c + 1\<rparr>
           else c\<lparr>table := t', skipped := skipped c + 1\<rparr>)"

text \<open>
  The inner loop over one batch. \<open>faults n\<close> is the fault of the execute for the row at
  position \<open>n\<close> of the dataframe; \<open>i\<close> is the position of the batch's first row.
\<close>

fun insert_batch :: "(nat \<Rightarrow> fault option) \<Rightarrow> nat \<Rightarrow> int ohlcv list \<Rightarrow> cursor \<Rightarrow> cursor" where
  "insert_batch faults i [] c = c"
| "insert_batch faults i (r # batch) c =
     insert_batch faults (Suc i) batch (insert_row (faults i) r c)"

text \<open>
  The connection: the cursor's view, the table as of the last \<open>conn.commit()\<close>, the
  number of commits and the \<open>Progress\<close> lines (done, inserted, skipped).
\<close>

record session =
  cur :: cursor
  committed :: replay_candles
  commits :: nat
  progress :: "(nat \<times> nat \<times> nat) list"

text \<open>
  A \<open>conn.commit()\<close> that does not raise: it makes the transaction's table the committed
  one, unless the transaction is aborted; then the server rolls it back. Either way the
  next statement starts a new transaction.
\<close>

definition commit :: "session \<Rightarrow> session" where
  "commit s =
     (if aborted (cur s)
      then s\<lparr>cur := (cur s)\<lparr>table := committed s, aborted := False\<rparr>,
             commits := commits s + 1\<rparr>
      else s\<lparr>committed := table (cur s), commits := commits s + 1\<rparr>)"

text \<open>
  The outer loop, \<open>for i in range(0, len(rows), BATCH)\<close> (lines 118 to 140): the inner
  loop over the batch that starts at position \<open>i\<close>, the commit, and the \<open>Progress\<close>
  line. \<open>commit_raises i\<close> says whether the \<open>conn.commit()\<close> after the batch that starts
  at position \<open>i\<close> raises. Nothing catches that exception: it ends the call, and the
  table is left as of the last commit (a commit that raises is taken not to have taken
  effect).
\<close>

definition run_batch :: "(nat \<Rightarrow> fault option) \<Rightarrow> int ohlcv list \<Rightarrow> nat \<Rightarrow> session \<Rightarrow> session" where
  "run_batch faults rs i s = s\<lparr>cur := insert_batch faults i (take BATCH (drop i rs)) (cur s)\<rparr>"

definition print_progress :: "int ohlcv list \<Rightarrow> nat \<Rightarrow> session \<Rightarrow> session" where
  "print_progress rs i s =
     s\<lparr>progress := progress s @
         [(min (i + BATCH) (length rs), inserted (cur s), skipped (cur s))]\<rparr>"

function load_batches ::
  "(nat \<Rightarrow> fault option) \<Rightarrow> (nat \<Rightarrow> bool) \<Rightarrow> int ohlcv list \<Rightarrow> nat \<Rightarrow> session
     \<Rightarrow> exn \<times> replay_candles + session" where
  "load_batches faults commit_raises rs i s =
     (if i < length rs
      then
        let s1 = run_batch faults rs i s
        in if commit_raises i then Inl (Psycopg2Error, committed s1)
           else load_batches faults commit_raises rs (i + BATCH) (print_progress rs i (commit s1))
      else Inr s)"
  by pat_completeness auto
termination
  by (relation "measure (\<lambda>(faults, commit_raises, rs, i, s). length rs - i)")
     (auto simp: BATCH_def)

definition connect :: "replay_candles \<Rightarrow> session" where
  "connect db = \<lparr>cur = \<lparr>table = db, aborted = False, inserted = 0, skipped = 0, warnings = []\<rparr>,
                 committed = db, commits = 0, progress = []\<rparr>"

text \<open>
  \<open>load_to_db\<close>: \<open>connect_ok\<close> says whether \<open>psycopg2.connect\<close> succeeds, \<open>db\<close> is the
  table before the call. The result is the returned pair \<open>(inserted, skipped)\<close> together
  with the connection's final state, or the exception that ended the call together with
  the table it left. \<open>conn.cursor()\<close>, \<open>cur.close()\<close> and \<open>conn.close()\<close> are taken not to
  raise.
\<close>

definition load_to_db ::
  "bool \<Rightarrow> (nat \<Rightarrow> fault option) \<Rightarrow> (nat \<Rightarrow> bool) \<Rightarrow> replay_candles \<Rightarrow> int ohlcv frame
     \<Rightarrow> exn \<times> replay_candles + (nat \<times> nat) \<times> session" where
  "load_to_db connect_ok faults commit_raises db df =
     (if \<not> connect_ok then Inl (SystemExit 1, db)
      else
        case load_batches faults commit_raises (rows df) 0 (connect db) of
          Inl x \<Rightarrow> Inl x
        | Inr s \<Rightarrow> Inr ((inserted (cur s), skipped (cur s)), s))"

subsection \<open>verify\<close>

text \<open>
  The aggregate query: \<open>fetchone\<close> gives \<open>None\<close> when no row has the symbol, as the
  \<open>GROUP BY\<close> then yields no group. Neither the connect nor the execute is inside a
  \<open>try\<close>; the other calls are taken not to raise.
\<close>

definition verify ::
  "bool \<Rightarrow> bool \<Rightarrow> replay_candles \<Rightarrow> exn + (string \<times> nat \<times> int \<times> int) option" where
  "verify connect_ok execute_ok db =
     (if \<not> connect_ok then Inl OperationalError
      else if \<not> execute_ok then Inl Psycopg2Error
      else
        let ts = map candle_time (filter (\<lambda>c. symbol c = SYMBOL) db)
        in Inr (if ts = [] then None
                else Some (SYMBOL, length ts, Min (set ts), Max (set ts))))"

subsection \<open>The script\<close>

text \<open>Everything a run receives from outside.\<close>

record env =
  yf_download :: "raw_row frame"
  tzdb :: tzdata
  load_connect_ok :: bool
  execute_faults :: "nat \<Rightarrow> fault option"
  commit_raises :: "nat \<Rightarrow> bool"
  verify_connect_ok :: bool
  verify_execute_ok :: bool
  initial_db :: replay_candles

text \<open>
  A run ends with the exception that stopped it, if any, and leaves the table as of the
  last commit.
\<close>

record outcome =
  stopped :: "exn option"
  returned :: "(nat \<times> nat) option"
  final_db :: replay_candles

definition main :: "env \<Rightarrow> outcome" where
  "main e =
     (case fetch_candles (tzdb e) (yf_download e) of
        Inl x \<Rightarrow> \<lparr>stopped = Some x, returned = None, final_db = initial_db e\<rparr>
      | Inr df \<Rightarrow>
          (case load_to_db (load_connect_ok e) (execute_faults e) (commit_raises e)
                  (initial_db e) df of
             Inl (x, db) \<Rightarrow> \<lparr>stopped = Some x, returned = None, final_db = db\<rparr>
           | Inr (counts, s) \<Rightarrow>
               (case verify (verify_connect_ok e) (verify_execute_ok e) (committed s) of
                  Inl x \<Rightarrow> \<lparr>stopped = Some x, returned = Some counts, final_db = committed s\<rparr>
                | Inr row \<Rightarrow> \<lparr>stopped = None, returned = Some counts, final_db = committed s\<rparr>)))"

text \<open>
  The status the interpreter exits with: the argument of \<open>sys.exit\<close>, 1 after an
  uncaught exception, 0 when the script runs to its end.
\<close>

fun exit_status :: "exn option \<Rightarrow> int" where
  "exit_status None = 0"
| "exit_status (Some (SystemExit n)) = n"
| "exit_status (Some _) = 1"

subsection \<open>Notions the properties are stated with\<close>

text \<open>What a call of \<open>load_to_db\<close> returned, and the table it left behind.\<close>

definition returned_counts ::
  "exn \<times> replay_candles + (nat \<times> nat) \<times> session \<Rightarrow> (nat \<times> nat) option" where
  "returned_counts r = (case r of Inl _ \<Rightarrow> None | Inr (n, _) \<Rightarrow> Some n)"

definition db_after :: "exn \<times> replay_candles + (nat \<times> nat) \<times> session \<Rightarrow> replay_candles" where
  "db_after r = (case r of Inl (_, db) \<Rightarrow> db | Inr (_, s) \<Rightarrow> committed s)"

text \<open>
  Any number of calls of \<open>load_to_db\<close>, one after the other on the same table, each with
  its own connection outcome, faults, raising commits and dataframe.
\<close>

fun loader_runs ::
  "replay_candles \<Rightarrow> (bool \<times> (nat \<Rightarrow> fault option) \<times> (nat \<Rightarrow> bool) \<times> int ohlcv frame) list
     \<Rightarrow> replay_candles" where
  "loader_runs t [] = t"
| "loader_runs t ((ok, f, g, df) # runs) = loader_runs (db_after (load_to_db ok f g t df)) runs"






text \<open>
  The UTC instant a provider timestamp denotes: an aware one is stored as its instant, a
  naive one is a wall-clock reading in Asia/Kolkata, 5 h 30 min ahead of UTC from 1970
  on and as the tz database says before.
\<close>

definition utc_instant :: "tzdata \<Rightarrow> zone option \<Rightarrow> int \<Rightarrow> int option" where
  "utc_instant db z t =
     (case z of
        Some _ \<Rightarrow> Some t
      | None \<Rightarrow>
          if 0 \<le> t then Some (t - 19800)
          else (case wall_offset db t of None \<Rightarrow> None | Some off \<Rightarrow> Some (t - off)))"

text \<open>
  A returned row \<open>c\<close> comes from the provider's row \<open>r\<close>: its time is the UTC instant of
  the provider's timestamp, its prices are the provider's, and its volume is the
  provider's after \<open>fillna(0).astype(int)\<close>.
\<close>

definition fetched :: "tzdata \<Rightarrow> zone option \<Rightarrow> raw_row \<Rightarrow> int ohlcv \<Rightarrow> bool" where
  "fetched db z r c =
     (utc_instant db z (Datetime r) = Some (candle_time c)
      \<and> open_px c = Open r \<and> high c = High r \<and> low c = Low r \<and> close c = Close r
      \<and> astype_int (fillna0 (Volume r)) = Some (volume c))"

text \<open>
  A tz database in which a later wall-clock reading never denotes an earlier instant, as
  far as the readings have an instant.
\<close>

definition order_preserving :: "tzdata \<Rightarrow> bool" where
  "order_preserving db =
     (\<forall>a b u v. a \<le> b \<longrightarrow> utc_instant db None a = Some u \<longrightarrow> utc_instant db None b = Some v
        \<longrightarrow> u \<le> v)"

text \<open>The number of rows with the symbol that \<open>verify\<close> reports (0 when it reports no row).\<close>

definition verified_count :: "exn + (string \<times> nat \<times> int \<times> int) option \<Rightarrow> nat" where
  "verified_count r = (case r of Inr (Some (_, n, _, _)) \<Rightarrow> n | _ \<Rightarrow> 0)"

subsection \<open>Example inputs\<close>

definition bar :: "int \<Rightarrow> raw_row" where
  "bar t = \<lparr>Datetime = t, Open = Fin 100, High = Fin 101, Low = Fin 99, Close = Fin 100,
            Volume = Fin 1000\<rparr>"

definition gap :: "int \<Rightarrow> raw_row" where
  "gap t = \<lparr>Datetime = t, Open = NaN, High = NaN, Low = NaN, Close = NaN, Volume = NaN\<rparr>"

definition row :: "int \<Rightarrow> int ohlcv" where
  "row t = \<lparr>candle_time = t, open_px = Fin 100, high = Fin 101, low = Fin 99,
            close = Fin 100, volume = 1000\<rparr>"


text \<open>A tz database in which Asia/Kolkata was at +06:30 before 1970.\<close>

definition war_time :: tzdata where
  "war_time = \<lparr>wall_offset = (\<lambda>t. Some 23400), utc_offset = (\<lambda>u. 23400)\<rparr>"

section \<open>Properties\<close>

subsection \<open>One row and one batch\<close>

declare load_batches.simps [simp del]

lemma table_insert_row:
  "table (insert_row fl r c) =
     (if aborted c \<or> fl \<noteq> None \<or> key (bind_params r) \<in> key ` set (table c) then table c
      else table c @ [bind_params r])"
  by (simp add: insert_row_def execute_insert_def)

lemma inserted_insert_row:
  "inserted (insert_row fl r c) =
     (if aborted c \<or> fl \<noteq> None \<or> key (bind_params r) \<in> key ` set (table c) then inserted c
      else inserted c + 1)"
  by (simp add: insert_row_def execute_insert_def)

lemma skipped_insert_row:
  "skipped (insert_row fl r c) =
     (if aborted c \<or> fl \<noteq> None \<or> key (bind_params r) \<in> key ` set (table c)
      then skipped c + 1 else skipped c)"
  by (simp add: insert_row_def execute_insert_def)

lemma warnings_insert_row:
  "warnings (insert_row fl r c) =
     (if aborted c \<or> fl \<noteq> None then warnings c @ [candle_time r] else warnings c)"
  by (simp add: insert_row_def execute_insert_def)

lemma aborted_insert_row:
  "aborted (insert_row fl r c) = (aborted c \<or> fl = Some ServerError)"
  by (auto simp: insert_row_def execute_insert_def)

lemmas insert_row_simps =
  table_insert_row inserted_insert_row skipped_insert_row warnings_insert_row aborted_insert_row

lemma insert_batch_append:
  "insert_batch f i (xs @ ys) c = insert_batch f (i + length xs) ys (insert_batch f i xs c)"
  by (induction xs arbitrary: i c) simp_all

lemma insert_batch_counts:
  "inserted (insert_batch f i rs c) + skipped (insert_batch f i rs c)
     = inserted c + skipped c + length rs"
  by (induction rs arbitrary: i c) (simp_all add: inserted_insert_row skipped_insert_row)


lemma insert_batch_grows:
  "\<exists>new. table (insert_batch f i rs c) = table c @ new
        \<and> set new \<subseteq> bind_params ` set rs
        \<and> inserted (insert_batch f i rs c) = inserted c + length new"
proof (induction rs arbitrary: i c)
  case Nil
  show ?case by simp
next
  case (Cons r rs)
  obtain new where new:
    "table (insert_batch f (Suc i) rs (insert_row (f i) r c)) = table (insert_row (f i) r c) @ new"
    "set new \<subseteq> bind_params ` set rs"
    "inserted (insert_batch f (Suc i) rs (insert_row (f i) r c))
       = inserted (insert_row (f i) r c) + length new"
    using Cons.IH [of "Suc i" "insert_row (f i) r c"] by blast
  show ?case
  proof (cases "aborted c \<or> f i \<noteq> None \<or> key (bind_params r) \<in> key ` set (table c)")
    case True
    with new show ?thesis
      by (intro exI [of _ new]) (auto simp: table_insert_row inserted_insert_row)
  next
    case False
    with new show ?thesis
      by (intro exI [of _ "bind_params r # new"])
         (auto simp: table_insert_row inserted_insert_row)
  qed
qed

lemma distinct_insert_row:
  "distinct (map key (table c)) \<Longrightarrow> distinct (map key (table (insert_row fl r c)))"
  by (auto simp: table_insert_row)

lemma distinct_insert_batch:
  "distinct (map key (table c)) \<Longrightarrow> distinct (map key (table (insert_batch f i rs c)))"
  by (induction rs arbitrary: i c) (simp_all add: distinct_insert_row)

lemma insert_batch_all_present:
  "\<forall>r \<in> set rs. key (bind_params r) \<in> key ` set (table c) \<Longrightarrow>
   table (insert_batch f i rs c) = table c
   \<and> inserted (insert_batch f i rs c) = inserted c
   \<and> skipped (insert_batch f i rs c) = skipped c + length rs"
proof (induction rs arbitrary: i c)
  case Nil
  show ?case by simp
next
  case (Cons r rs)
  have t: "table (insert_row (f i) r c) = table c"
    using Cons.prems by (simp add: table_insert_row)
  have "\<forall>x \<in> set rs. key (bind_params x) \<in> key ` set (table (insert_row (f i) r c))"
    using Cons.prems by (simp add: t)
  from Cons.IH [OF this] Cons.prems show ?case
    by (simp add: t inserted_insert_row skipped_insert_row)
qed

lemma keys_insert_row_mono:
  "key ` set (table c) \<subseteq> key ` set (table (insert_row fl r c))"
  by (auto simp: table_insert_row)

lemma keys_insert_batch_mono:
  "key ` set (table c) \<subseteq> key ` set (table (insert_batch f i rs c))"
proof (induction rs arbitrary: i c)
  case Nil
  show ?case by simp
next
  case (Cons r rs)
  have "key ` set (table c) \<subseteq> key ` set (table (insert_row (f i) r c))"
    by (rule keys_insert_row_mono)
  also have "\<dots> \<subseteq> key ` set (table (insert_batch f (Suc i) rs (insert_row (f i) r c)))"
    by (rule Cons.IH)
  finally show ?case by simp
qed

text \<open>A batch in which no execute has a fault, in a transaction that is not aborted.\<close>

lemma aborted_insert_batch_no_server_error:
  "\<forall>n. i \<le> n \<and> n < i + length rs \<longrightarrow> f n \<noteq> Some ServerError \<Longrightarrow>
   aborted (insert_batch f i rs c) = aborted c"
  by (induction rs arbitrary: i c) (simp_all add: aborted_insert_row)

lemma keys_insert_batch_no_faults:
  "\<forall>n. i \<le> n \<and> n < i + length rs \<longrightarrow> f n = None \<Longrightarrow> \<not> aborted c \<Longrightarrow> r \<in> set rs \<Longrightarrow>
   key (bind_params r) \<in> key ` set (table (insert_batch f i rs c))"
proof (induction rs arbitrary: i c)
  case Nil
  then show ?case by simp
next
  case (Cons x rs)
  let ?c1 = "insert_row (f i) x c"
  from Cons.prems(1) have fi: "f i = None" by simp
  from Cons.prems(1) have rest: "\<forall>n. Suc i \<le> n \<and> n < Suc i + length rs \<longrightarrow> f n = None"
    by simp
  from fi Cons.prems(2) have na: "\<not> aborted ?c1" by (simp add: aborted_insert_row)
  show ?case
  proof (cases "r \<in> set rs")
    case True
    from Cons.IH [OF rest na True] show ?thesis by simp
  next
    case False
    with Cons.prems(3) have rx: "r = x" by simp
    have "key (bind_params x) \<in> key ` set (table ?c1)"
      using fi Cons.prems(2) by (simp add: table_insert_row)
    moreover have "key ` set (table ?c1) \<subseteq> key ` set (table (insert_batch f (Suc i) rs ?c1))"
      by (rule keys_insert_batch_mono)
    ultimately show ?thesis using rx by auto
  qed
qed



subsection \<open>The batch loop\<close>

lemma run_batch_simps [simp]:
  "cur (run_batch f rs i s) = insert_batch f i (take BATCH (drop i rs)) (cur s)"
  "committed (run_batch f rs i s) = committed s"
  "commits (run_batch f rs i s) = commits s"
  "progress (run_batch f rs i s) = progress s"
  by (simp_all add: run_batch_def)

lemma print_progress_simps [simp]:
  "cur (print_progress rs i s) = cur s"
  "committed (print_progress rs i s) = committed s"
  "commits (print_progress rs i s) = commits s"
  by (simp_all add: print_progress_def)

lemma commit_simps [simp]:
  "table (cur (commit s)) = (if aborted (cur s) then committed s else table (cur s))"
  "committed (commit s) = (if aborted (cur s) then committed s else table (cur s))"
  "aborted (cur (commit s)) = False"
  "inserted (cur (commit s)) = inserted (cur s)"
  "skipped (cur (commit s)) = skipped (cur s)"
  "warnings (cur (commit s)) = warnings (cur s)"
  "commits (commit s) = commits s + 1"
  "progress (commit s) = progress s"
  by (simp_all add: commit_def)

lemma load_batches_done: "\<not> i < length rs \<Longrightarrow> load_batches f g rs i s = Inr s"
  by (subst load_batches.simps) simp

lemma load_batches_raise:
  "i < length rs \<Longrightarrow> g i \<Longrightarrow> load_batches f g rs i s = Inl (Psycopg2Error, committed s)"
  by (subst load_batches.simps) (simp add: Let_def)

lemma load_batches_step:
  "i < length rs \<Longrightarrow> \<not> g i \<Longrightarrow>
   load_batches f g rs i s =
     load_batches f g rs (i + BATCH) (print_progress rs i (commit (run_batch f rs i s)))"
  by (subst load_batches.simps) (simp add: Let_def)

lemma load_batches_Inr_step:
  assumes "load_batches f g rs i s = Inr s'" and "i < length rs"
  shows "load_batches f g rs (i + BATCH) (print_progress rs i (commit (run_batch f rs i s))) = Inr s'"
proof (cases "g i")
  case True
  with assms show ?thesis by (simp add: load_batches_raise)
next
  case False
  with assms show ?thesis by (simp add: load_batches_step)
qed

lemma load_batches_returns:
  "\<forall>j < length rs. \<not> g j \<Longrightarrow> \<exists>s'. load_batches f g rs i s = Inr s'"
proof (induction "length rs - i" arbitrary: i s rule: less_induct)
  case less
  show ?case
  proof (cases "i < length rs")
    case True
    then have m: "length rs - (i + BATCH) < length rs - i"
      by (simp add: BATCH_def)
    from True less.prems have "\<not> g i" by simp
    with less.hyps [OF m less.prems] True show ?thesis
      by (simp add: load_batches_step)
  next
    case False
    then show ?thesis by (simp add: load_batches_done)
  qed
qed

text \<open>
  A property of the connection that the inner loop, the commit and the progress line
  preserve holds when the call returns, and of the connection a raising commit leaves.
\<close>

lemma load_batches_invariant:
  assumes "P s"
    and "\<And>i s. P s \<Longrightarrow> P (run_batch f rs i s)"
    and "\<And>s. P s \<Longrightarrow> P (commit s)"
    and "\<And>i s. P s \<Longrightarrow> P (print_progress rs i s)"
  shows "case load_batches f g rs i s of
           Inl (x, db) \<Rightarrow> (\<exists>s'. P s' \<and> db = committed s')
         | Inr s' \<Rightarrow> P s'"
  using assms(1)
proof (induction "length rs - i" arbitrary: i s rule: less_induct)
  case less
  show ?case
  proof (cases "i < length rs")
    case True
    then have m: "length rs - (i + BATCH) < length rs - i"
      by (simp add: BATCH_def)
    show ?thesis
    proof (cases "g i")
      case True
      with \<open>i < length rs\<close> less.prems show ?thesis
        by (auto simp: load_batches_raise)
    next
      case False
      from less.prems have "P (print_progress rs i (commit (run_batch f rs i s)))"
        by (intro assms(2,3,4))
      from less.hyps [OF m this] False \<open>i < length rs\<close> show ?thesis
        by (simp add: load_batches_step)
    qed
  next
    case False
    with less.prems show ?thesis by (simp add: load_batches_done)
  qed
qed



lemma counts_load_batches:
  "load_batches f g rs i s = Inr s' \<Longrightarrow>
   inserted (cur s') + skipped (cur s') = inserted (cur s) + skipped (cur s) + (length rs - i)"
proof (induction "length rs - i" arbitrary: i s rule: less_induct)
  case less
  show ?case
  proof (cases "i < length rs")
    case True
    then have m: "length rs - (i + BATCH) < length rs - i"
      by (simp add: BATCH_def)
    let ?b = "take BATCH (drop i rs)"
    have c: "inserted (insert_batch f i ?b (cur s)) + skipped (insert_batch f i ?b (cur s))
        = inserted (cur s) + skipped (cur s) + length ?b"
      by (rule insert_batch_counts)
    have l: "length ?b + (length rs - (i + BATCH)) = length rs - i"
      using True by (simp add: min_def)
    from less.hyps [OF m load_batches_Inr_step [OF less.prems True]]
    have "inserted (cur s') + skipped (cur s')
        = inserted (insert_batch f i ?b (cur s)) + skipped (insert_batch f i ?b (cur s))
          + (length rs - (i + BATCH))"
      by simp
    with c l show ?thesis by simp
  next
    case False
    with less.prems show ?thesis by (simp add: load_batches_done)
  qed
qed

lemma boundary_load_batches:
  "load_batches f g rs i s = Inr s' \<Longrightarrow>
   i < length rs \<or> (\<not> aborted (cur s) \<and> table (cur s) = committed s) \<Longrightarrow>
   \<not> aborted (cur s') \<and> table (cur s') = committed s'"
proof (induction "length rs - i" arbitrary: i s rule: less_induct)
  case less
  show ?case
  proof (cases "i < length rs")
    case True
    then have m: "length rs - (i + BATCH) < length rs - i"
      by (simp add: BATCH_def)
    from less.hyps [OF m load_batches_Inr_step [OF less.prems(1) True]]
    show ?thesis by simp
  next
    case False
    with less.prems show ?thesis by (simp add: load_batches_done)
  qed
qed

subsection \<open>Runs in which the server rejects no statement\<close>

lemma cur_commit: "\<not> aborted (cur s) \<Longrightarrow> cur (commit s) = cur s"
  by (simp add: commit_def)

lemma insert_batch_take_drop:
  "insert_batch f (i + BATCH) (drop (i + BATCH) rs) (insert_batch f i (take BATCH (drop i rs)) c)
     = insert_batch f i (drop i rs) c"
proof (cases "i + BATCH \<le> length rs")
  case True
  have "drop i rs = take BATCH (drop i rs) @ drop (i + BATCH) rs"
    by (metis append_take_drop_id drop_drop add.commute)
  then have "insert_batch f i (drop i rs) c
      = insert_batch f i (take BATCH (drop i rs) @ drop (i + BATCH) rs) c"
    by simp
  also have "\<dots> = insert_batch f (i + length (take BATCH (drop i rs))) (drop (i + BATCH) rs)
                    (insert_batch f i (take BATCH (drop i rs)) c)"
    by (rule insert_batch_append)
  also have "i + length (take BATCH (drop i rs)) = i + BATCH"
    using True by simp
  finally show ?thesis by simp
next
  case False
  then show ?thesis by simp
qed

lemma cur_load_batches:
  "load_batches f g rs i s = Inr s' \<Longrightarrow> \<forall>n < length rs. f n \<noteq> Some ServerError \<Longrightarrow>
   \<not> aborted (cur s) \<Longrightarrow> cur s' = insert_batch f i (drop i rs) (cur s)"
proof (induction "length rs - i" arbitrary: i s rule: less_induct)
  case less
  show ?case
  proof (cases "i < length rs")
    case True
    then have m: "length rs - (i + BATCH) < length rs - i"
      by (simp add: BATCH_def)
    let ?B = "insert_batch f i (take BATCH (drop i rs)) (cur s)"
    have "\<forall>n. i \<le> n \<and> n < i + length (take BATCH (drop i rs)) \<longrightarrow> f n \<noteq> Some ServerError"
    proof (intro allI impI)
      fix n assume "i \<le> n \<and> n < i + length (take BATCH (drop i rs))"
      with True have "n < length rs" by (cases "length rs - i \<le> BATCH") auto
      with less.prems(2) show "f n \<noteq> Some ServerError" by simp
    qed
    then have "aborted ?B = aborted (cur s)"
      by (rule aborted_insert_batch_no_server_error)
    with less.prems(3) have na: "\<not> aborted ?B" by simp
    then have c: "cur (commit (run_batch f rs i s)) = ?B"
      by (simp add: cur_commit)
    from less.hyps [OF m load_batches_Inr_step [OF less.prems(1) True] less.prems(2)] na
    show ?thesis by (simp add: c insert_batch_take_drop)
  next
    case False
    with less.prems show ?thesis by (simp add: load_batches_done)
  qed
qed

subsection \<open>Faults, batch by batch\<close>













subsection \<open>What every call leaves in the table\<close>

lemma load_batches_table:
  assumes "committed s = t @ new0" and "table (cur s) = committed s @ pend0"
    and "set new0 \<union> set pend0 \<subseteq> bind_params ` set rs"
    and "length new0 + length pend0 \<le> inserted (cur s)"
    and "distinct (map key t) \<longrightarrow> distinct (map key (table (cur s)))"
  shows "case load_batches f g rs i s of
           Inl (x, db) \<Rightarrow>
             (\<exists>new. db = t @ new \<and> set new \<subseteq> bind_params ` set rs
                \<and> (distinct (map key t) \<longrightarrow> distinct (map key db)))
         | Inr s' \<Rightarrow>
             (\<exists>new. committed s' = t @ new \<and> set new \<subseteq> bind_params ` set rs
                \<and> (distinct (map key t) \<longrightarrow> distinct (map key (committed s')))
                \<and> length new \<le> inserted (cur s'))"
proof -
  let ?P = "\<lambda>s :: session. \<exists>new pend. committed s = t @ new \<and> table (cur s) = committed s @ pend
      \<and> set new \<union> set pend \<subseteq> bind_params ` set rs
      \<and> length new + length pend \<le> inserted (cur s)
      \<and> (distinct (map key t) \<longrightarrow> distinct (map key (table (cur s))))"
  have P0: "?P s" using assms by blast
  have P1: "?P (run_batch f rs i s)" if "?P s" for i s
  proof -
    let ?b = "take BATCH (drop i rs)"
    from that obtain new pend where np: "committed s = t @ new"
        "table (cur s) = committed s @ pend"
        "set new \<union> set pend \<subseteq> bind_params ` set rs"
        "length new + length pend \<le> inserted (cur s)"
        "distinct (map key t) \<longrightarrow> distinct (map key (table (cur s)))"
      by blast
    obtain more where more:
        "table (insert_batch f i ?b (cur s)) = table (cur s) @ more"
        "set more \<subseteq> bind_params ` set ?b"
        "inserted (insert_batch f i ?b (cur s)) = inserted (cur s) + length more"
      using insert_batch_grows [of f i ?b "cur s"] by blast
    have "set ?b \<subseteq> set rs"
      by (meson set_take_subset set_drop_subset subset_trans)
    with more(2) have sub: "set more \<subseteq> bind_params ` set rs" by blast
    have "committed (run_batch f rs i s) = t @ new" by (simp add: np(1))
    moreover have "table (cur (run_batch f rs i s)) = committed (run_batch f rs i s) @ (pend @ more)"
      by (simp add: more(1) np(2))
    moreover have "set new \<union> set (pend @ more) \<subseteq> bind_params ` set rs"
      using np(3) sub by auto
    moreover have "length new + length (pend @ more) \<le> inserted (cur (run_batch f rs i s))"
      using np(4) by (simp add: more(3))
    moreover have "distinct (map key t) \<longrightarrow> distinct (map key (table (cur (run_batch f rs i s))))"
      using np(5) by (simp add: distinct_insert_batch)
    ultimately show ?thesis by blast
  qed
  have P2: "?P (commit s)" if "?P s" for s
  proof -
    from that obtain new pend where np: "committed s = t @ new"
        "table (cur s) = committed s @ pend"
        "set new \<union> set pend \<subseteq> bind_params ` set rs"
        "length new + length pend \<le> inserted (cur s)"
        "distinct (map key t) \<longrightarrow> distinct (map key (table (cur s)))"
      by blast
    show ?thesis
    proof (cases "aborted (cur s)")
      case True
      have "committed (commit s) = t @ new" using True by (simp add: np(1))
      moreover have "table (cur (commit s)) = committed (commit s) @ []" using True by simp
      moreover have "set new \<union> set [] \<subseteq> bind_params ` set rs" using np(3) by simp
      moreover have "length new + length ([] :: candle list) \<le> inserted (cur (commit s))"
        using np(4) by simp
      moreover have "distinct (map key t) \<longrightarrow> distinct (map key (table (cur (commit s))))"
        using True np(2,5) by auto
      ultimately show ?thesis by blast
    next
      case False
      have "committed (commit s) = t @ (new @ pend)" using False by (simp add: np(1,2))
      moreover have "table (cur (commit s)) = committed (commit s) @ []" using False by simp
      moreover have "set (new @ pend) \<union> set [] \<subseteq> bind_params ` set rs" using np(3) by simp
      moreover have "length (new @ pend) + length ([] :: candle list) \<le> inserted (cur (commit s))"
        using np(4) by simp
      moreover have "distinct (map key t) \<longrightarrow> distinct (map key (table (cur (commit s))))"
        using False np(5) by simp
      ultimately show ?thesis by blast
    qed
  qed
  have P3: "?P (print_progress rs i s)" if "?P s" for i s
    using that by simp
  have D: "\<exists>new. committed s' = t @ new \<and> set new \<subseteq> bind_params ` set rs
      \<and> (distinct (map key t) \<longrightarrow> distinct (map key (committed s')))
      \<and> length new \<le> inserted (cur s')" if "?P s'" for s'
  proof -
    from that obtain new pend where np: "committed s' = t @ new"
        "table (cur s') = committed s' @ pend"
        "set new \<union> set pend \<subseteq> bind_params ` set rs"
        "length new + length pend \<le> inserted (cur s')"
        "distinct (map key t) \<longrightarrow> distinct (map key (table (cur s')))"
      by blast
    from np(2,5) have "distinct (map key t) \<longrightarrow> distinct (map key (committed s'))" by auto
    with np(1,3,4) show ?thesis by auto
  qed
  have inv: "case load_batches f g rs i s of
      Inl (x, db) \<Rightarrow> (\<exists>s'. ?P s' \<and> db = committed s') | Inr s' \<Rightarrow> ?P s'"
    by (rule load_batches_invariant [of ?P s f rs g i, OF P0 P1 P2 P3])
  show ?thesis
  proof (cases "load_batches f g rs i s")
    case (Inl a)
    obtain x db where a: "a = (x, db)" by (cases a)
    from inv Inl a obtain s' where "?P s'" "db = committed s'" by auto
    with D [of s'] Inl a show ?thesis by auto
  next
    case (Inr s')
    from inv Inr have "?P s'" by simp
    with D [of s'] Inr show ?thesis by simp
  qed
qed

subsection \<open>load\_to\_db as a whole\<close>

lemma connect_simps [simp]:
  "cur (connect t) = \<lparr>table = t, aborted = False, inserted = 0, skipped = 0, warnings = []\<rparr>"
  "committed (connect t) = t"
  "commits (connect t) = 0"
  "progress (connect t) = []"
  by (simp_all add: connect_def)

lemma load_to_db_False: "load_to_db False f g t df = Inl (SystemExit 1, t)"
  by (simp add: load_to_db_def)

lemma load_to_db_True:
  "load_to_db True f g t df =
     (case load_batches f g (rows df) 0 (connect t) of
        Inl x \<Rightarrow> Inl x
      | Inr s \<Rightarrow> Inr ((inserted (cur s), skipped (cur s)), s))"
  by (simp add: load_to_db_def)

lemma load_to_db_InrD:
  "load_to_db ok f g t df = Inr (n, s) \<Longrightarrow>
   load_batches f g (rows df) 0 (connect t) = Inr s \<and> n = (inserted (cur s), skipped (cur s))"
  by (auto simp: load_to_db_def split: if_splits sum.splits)

lemma load_to_db_returns:
  assumes "\<forall>j < length (rows df). \<not> g j"
  shows "\<exists>s. load_to_db True f g t df = Inr ((inserted (cur s), skipped (cur s)), s)"
proof -
  from load_batches_returns [OF assms, of f 0 "connect t"]
  obtain s where "load_batches f g (rows df) 0 (connect t) = Inr s" by blast
  then show ?thesis by (simp add: load_to_db_True)
qed

lemma load_batches_raises_Error:
  "load_batches f g rs i s = Inl (x, db) \<Longrightarrow> x = Psycopg2Error"
proof (induction "length rs - i" arbitrary: i s rule: less_induct)
  case less
  show ?case
  proof (cases "i < length rs")
    case True
    then have m: "length rs - (i + BATCH) < length rs - i"
      by (simp add: BATCH_def)
    show ?thesis
    proof (cases "g i")
      case True
      with \<open>i < length rs\<close> less.prems show ?thesis by (simp add: load_batches_raise)
    next
      case False
      with \<open>i < length rs\<close> less.prems
      have "load_batches f g rs (i + BATCH) (print_progress rs i (commit (run_batch f rs i s)))
          = Inl (x, db)"
        by (simp add: load_batches_step)
      from less.hyps [OF m this] show ?thesis .
    qed
  next
    case False
    with less.prems show ?thesis by (simp add: load_batches_done)
  qed
qed

lemma load_to_db_InlD:
  "load_to_db ok f g t df = Inl (x, db) \<Longrightarrow>
   (\<not> ok \<and> x = SystemExit 1 \<and> db = t) \<or> (ok \<and> x = Psycopg2Error)"
  by (auto simp: load_to_db_def dest: load_batches_raises_Error
           split: if_splits sum.splits)

lemma db_after_load_to_db:
  "\<exists>new. db_after (load_to_db ok f g t df) = t @ new
     \<and> set new \<subseteq> bind_params ` set (rows df)
     \<and> (distinct (map key t) \<longrightarrow> distinct (map key (t @ new)))
     \<and> (\<forall>n s. load_to_db ok f g t df = Inr (n, s) \<longrightarrow> length new \<le> fst n)"
proof (cases ok)
  case False
  then show ?thesis by (simp add: load_to_db_False db_after_def)
next
  case True
  have lb: "case load_batches f g (rows df) 0 (connect t) of
           Inl (x, db) \<Rightarrow>
             (\<exists>new. db = t @ new \<and> set new \<subseteq> bind_params ` set (rows df)
                \<and> (distinct (map key t) \<longrightarrow> distinct (map key db)))
         | Inr s' \<Rightarrow>
             (\<exists>new. committed s' = t @ new \<and> set new \<subseteq> bind_params ` set (rows df)
                \<and> (distinct (map key t) \<longrightarrow> distinct (map key (committed s')))
                \<and> length new \<le> inserted (cur s'))"
    by (rule load_batches_table [where ?new0.0 = "[]" and ?pend0.0 = "[]"]) simp_all
  show ?thesis
  proof (cases "load_batches f g (rows df) 0 (connect t)")
    case (Inl a)
    obtain x db where a: "a = (x, db)" by (cases a)
    from lb Inl a obtain new where "db = t @ new" "set new \<subseteq> bind_params ` set (rows df)"
        "distinct (map key t) \<longrightarrow> distinct (map key db)"
      by auto
    with True Inl a show ?thesis
      by (intro exI [of _ new]) (simp add: load_to_db_True db_after_def)
  next
    case (Inr s')
    from lb Inr obtain new where "committed s' = t @ new"
        "set new \<subseteq> bind_params ` set (rows df)"
        "distinct (map key t) \<longrightarrow> distinct (map key (committed s'))"
        "length new \<le> inserted (cur s')"
      by auto
    with True Inr show ?thesis
      by (intro exI [of _ new]) (auto simp: load_to_db_True db_after_def)
  qed
qed

text \<open>A dataframe of at most 500 rows is one batch.\<close>

lemma load_to_db_one_batch:
  assumes "rows df \<noteq> []" and "length (rows df) \<le> BATCH"
  shows "load_to_db True f g t df =
     (if g 0 then Inl (Psycopg2Error, t)
      else Inr ((inserted (insert_batch f 0 (rows df) (cur (connect t))),
                 skipped (insert_batch f 0 (rows df) (cur (connect t)))),
                print_progress (rows df) 0 (commit (run_batch f (rows df) 0 (connect t)))))"
proof -
  from assms(1) have l: "0 < length (rows df)" by simp
  from assms(2) have d: "\<not> 0 + BATCH < length (rows df)" by simp
  show ?thesis
  proof (cases "g 0")
    case True
    with l show ?thesis by (simp add: load_to_db_True load_batches_raise)
  next
    case False
    with l d assms(2) show ?thesis
      by (simp add: load_to_db_True load_batches_step load_batches_done)
  qed
qed

lemma run_one_batch:
  "length rs \<le> BATCH \<Longrightarrow> cur (run_batch f rs 0 s) = insert_batch f 0 rs (cur s)"
  by simp


lemma load_to_db_no_server_error:
  assumes "load_to_db ok f g t df = Inr (n, s)"
    and "\<forall>k < length (rows df). f k \<noteq> Some ServerError"
  shows "cur s = insert_batch f 0 (rows df) (cur (connect t))" and "committed s = table (cur s)"
proof -
  from load_to_db_InrD [OF assms(1)]
  have lb: "load_batches f g (rows df) 0 (connect t) = Inr s" by simp
  from cur_load_batches [OF lb assms(2)]
  show "cur s = insert_batch f 0 (rows df) (cur (connect t))" by simp
  from boundary_load_batches [OF lb] show "committed s = table (cur s)" by simp
qed

subsection \<open>fetch\_candles\<close>

lemma those_map_Some:
  "those (map f xs) = Some ys \<Longrightarrow> list_all2 (\<lambda>x y. f x = Some y) xs ys"
  by (induction xs arbitrary: ys) (auto split: option.splits)

lemma utc_instant_None: "utc_instant db None t = localize db Asia_Kolkata t"
  by (simp add: utc_instant_def split: option.splits)

lemma utc_instant_Some: "utc_instant db (Some z) t = Some t"
  by (simp add: utc_instant_def)

lemma set_time_wall_clock_UTC [simp]: "set_time (wall_clock db UTC) = id"
  by (rule ext) (simp add: set_time_def)

lemma fetched_naive:
  "those (map (localize_row db Asia_Kolkata) (map rename xs)) = Some rs1 \<Longrightarrow>
   those (map cast_volume rs1) = Some rs \<Longrightarrow>
   list_all2 (fetched db None) xs rs"
proof (induction xs arbitrary: rs1 rs)
  case Nil
  then show ?case by simp
next
  case (Cons x xs)
  from Cons.prems(1) obtain y ys where y: "localize_row db Asia_Kolkata (rename x) = Some y"
      "those (map (localize_row db Asia_Kolkata) (map rename xs)) = Some ys" "rs1 = y # ys"
    by (auto split: option.splits)
  from Cons.prems(2) y(3) obtain c cs where c: "cast_volume y = Some c"
      "those (map cast_volume ys) = Some cs" "rs = c # cs"
    by (auto split: option.splits)
  from y(1) c(1) have "fetched db None x c"
    by (auto simp: fetched_def utc_instant_None localize_row_def cast_volume_def set_time_def
        rename_def)
  with Cons.IH [OF y(2) c(2)] c(3) show ?case by simp
qed

lemma fetched_aware:
  "those (map cast_volume (map rename xs)) = Some rs \<Longrightarrow>
   list_all2 (fetched db (Some z)) xs rs"
proof (induction xs arbitrary: rs)
  case Nil
  then show ?case by simp
next
  case (Cons x xs)
  from Cons.prems obtain c cs where c: "cast_volume (rename x) = Some c"
      "those (map cast_volume (map rename xs)) = Some cs" "rs = c # cs"
    by (auto split: option.splits)
  from c(1) have "fetched db (Some z) x c"
    by (auto simp: fetched_def utc_instant_Some cast_volume_def set_time_def rename_def)
  with Cons.IH [OF c(2)] c(3) show ?case by simp
qed

lemma dropna_rename:
  "dropna (map rename rs) = map rename (filter (notna \<circ> rename) rs)"
  by (simp add: dropna_def filter_map)

lemma fetch_candles_empty: "rows d = [] \<Longrightarrow> fetch_candles db d = Inl (SystemExit 1)"
  by (simp add: fetch_candles_def)

lemma fetch_candles_InrD:
  assumes "fetch_candles db d = Inr df"
  shows "rows d \<noteq> []" and "tz df = None"
    and "list_all2 (fetched db (tz d)) (filter (notna \<circ> rename) (rows d)) (rows df)"
proof -
  from assms show ne: "rows d \<noteq> []" by (auto simp: fetch_candles_def)
  have "tz df = None \<and> list_all2 (fetched db (tz d)) (filter (notna \<circ> rename) (rows d)) (rows df)"
  proof (cases "tz d")
    case None
    from assms ne None obtain rs1 where rs1:
        "those (map (localize_row db Asia_Kolkata)
                  (map rename (filter (notna \<circ> rename) (rows d)))) = Some rs1"
      by (auto simp: fetch_candles_def tz_localize_def dropna_rename Let_def
               split: option.splits)
    with assms ne None obtain rs where rs:
        "those (map cast_volume rs1) = Some rs"
        "df = \<lparr>tz = None, rows = rs\<rparr>"
      by (auto simp: fetch_candles_def tz_localize_def tz_convert_def tz_localize_None_def
               dropna_rename Let_def split: option.splits)
    from fetched_naive [OF rs1 rs(1)] rs(2) None show ?thesis by simp
  next
    case (Some z)
    with assms ne obtain rs where rs:
        "those (map cast_volume (map rename (filter (notna \<circ> rename) (rows d)))) = Some rs"
        "df = \<lparr>tz = None, rows = rs\<rparr>"
      by (auto simp: fetch_candles_def tz_convert_def tz_localize_None_def
               dropna_rename Let_def split: option.splits)
    from fetched_aware [OF rs(1), of db z] rs(2) Some show ?thesis by simp
  qed
  then show "tz df = None"
    and "list_all2 (fetched db (tz d)) (filter (notna \<circ> rename) (rows d)) (rows df)"
    by simp_all
qed

lemma fetch_candles_raises:
  "fetch_candles db d = Inl x \<Longrightarrow> exit_status (Some x) = 1"
  by (auto simp: fetch_candles_def tz_localize_def tz_convert_def Let_def
           split: if_splits option.splits sum.splits)

lemma list_all2_map_eq:
  "list_all2 R xs ys \<Longrightarrow> (\<And>x y. R x y \<Longrightarrow> f x = g y) \<Longrightarrow> map f xs = map g ys"
  by (induction rule: list_all2_induct) auto

lemma list_all2_set2:
  "list_all2 R xs ys \<Longrightarrow> y \<in> set ys \<Longrightarrow> \<exists>x \<in> set xs. R x y"
  by (induction rule: list_all2_induct) auto

lemma sorted_list_all2:
  assumes "list_all2 R xs ys" and "sorted (map f xs)"
    and "\<And>x x' y y'. x \<in> set xs \<Longrightarrow> x' \<in> set xs \<Longrightarrow> R x y \<Longrightarrow> R x' y' \<Longrightarrow> f x \<le> f x'
           \<Longrightarrow> g y \<le> g y'"
  shows "sorted (map g ys)"
  using assms
proof (induction rule: list_all2_induct)
  case Nil
  show ?case by simp
next
  case (Cons x xs y ys)
  have "g y \<le> g y'" if "y' \<in> set ys" for y'
  proof -
    from list_all2_set2 [OF Cons.hyps(2) that] obtain x' where x': "x' \<in> set xs" "R x' y'"
      by blast
    from Cons.prems(1) x'(1) have "f x \<le> f x'" by simp
    with Cons.prems(2) [of x x' y y'] Cons.hyps(1) x' show ?thesis by simp
  qed
  moreover have "sorted (map g ys)"
  proof (rule Cons.IH)
    from Cons.prems(1) show "sorted (map f xs)" by simp
    show "g y \<le> g y'" if "x \<in> set xs" "x' \<in> set xs" "R x y" "R x' y'" "f x \<le> f x'"
      for x x' y y'
      using Cons.prems(2) [of x x' y y'] that by simp
  qed
  ultimately show ?case by simp
qed

subsection \<open>The script\<close>

lemma final_db_main:
  "final_db (main e) =
     (case fetch_candles (tzdb e) (yf_download e) of
        Inl x \<Rightarrow> initial_db e
      | Inr df \<Rightarrow>
          db_after (load_to_db (load_connect_ok e) (execute_faults e) (commit_raises e)
                      (initial_db e) df))"
  by (simp add: main_def db_after_def split: sum.splits prod.splits)

lemma notna_bind_params [simp]: "notna (bind_params r) = notna r"
  by (simp add: notna_def bind_params_def)

lemma symbol_bind_params [simp]: "symbol (bind_params r) = SYMBOL"
  by (simp add: bind_params_def)

lemma candle_time_bind_params [simp]: "candle_time (bind_params r) = candle_time r"
  by (simp add: bind_params_def)

lemma verify_bounds:
  "verify True True db = Inr (Some (name, n, lo, hi)) \<Longrightarrow>
   lo = Min (candle_time ` {c \<in> set db. symbol c = SYMBOL})
   \<and> hi = Max (candle_time ` {c \<in> set db. symbol c = SYMBOL})"
  by (auto simp: verify_def Let_def split: if_splits)

lemma verified_count_verify:
  "verified_count (verify True True t) = length (filter (\<lambda>c. symbol c = SYMBOL) t)"
  by (simp add: verified_count_def verify_def Let_def)

lemma one_batch_results:
  assumes "rows df \<noteq> []" and "length (rows df) \<le> BATCH" and "\<not> g 0"
  shows "returned_counts (load_to_db True f g t df)
      = Some (inserted (insert_batch f 0 (rows df)
                 \<lparr>table = t, aborted = False, inserted = 0, skipped = 0, warnings = []\<rparr>),
              skipped (insert_batch f 0 (rows df)
                 \<lparr>table = t, aborted = False, inserted = 0, skipped = 0, warnings = []\<rparr>))"
    and "db_after (load_to_db True f g t df)
      = (if aborted (insert_batch f 0 (rows df)
                 \<lparr>table = t, aborted = False, inserted = 0, skipped = 0, warnings = []\<rparr>)
         then t
         else table (insert_batch f 0 (rows df)
                 \<lparr>table = t, aborted = False, inserted = 0, skipped = 0, warnings = []\<rparr>))"
  using assms
  by (simp_all add: load_to_db_one_batch returned_counts_def db_after_def)

lemmas fetch_eval =
  fetch_candles_def dropna_def notna_def rename_def tz_localize_def tz_convert_def
  tz_localize_None_def localize_row_def set_time_def cast_volume_def astype_int_def
  fillna0_def int64_of_float_def bar_def gap_def row_def Let_def

lemmas load_eval =
  one_batch_results insert_row_def execute_insert_def bind_params_def row_def key_def
  BATCH_def

lemma sorted_map_filter:
  "sorted (map f xs) \<Longrightarrow> sorted (map f (filter P xs))"
  by (induction xs) auto

lemma order_preserving_war_time: "order_preserving war_time"
  by (auto simp: order_preserving_def utc_instant_def war_time_def split: if_splits)

lemma exit_status_main:
  "stopped (main e) = None \<or> exit_status (stopped (main e)) = 1"
proof (cases "fetch_candles (tzdb e) (yf_download e)")
  case (Inl x)
  with fetch_candles_raises [OF Inl] show ?thesis by (simp add: main_def)
next
  case (Inr df)
  show ?thesis
  proof (cases "load_to_db (load_connect_ok e) (execute_faults e) (commit_raises e)
                  (initial_db e) df")
    case (Inl a)
    obtain x db where a: "a = (x, db)" by (cases a)
    from load_to_db_InlD [OF Inl [unfolded a]] have "x = SystemExit 1 \<or> x = Psycopg2Error"
      by auto
    with Inr Inl a show ?thesis by (auto simp: main_def)
  next
    case (Inr b)
    with \<open>fetch_candles (tzdb e) (yf_download e) = Inr df\<close> show ?thesis
      by (auto simp: main_def verify_def Let_def split: prod.splits)
  qed
qed

lemma stopped_main_None:
  assumes "stopped (main e) = None"
  shows "rows (yf_download e) \<noteq> []" and "load_connect_ok e" and "verify_connect_ok e"
    and "verify_execute_ok e"
proof -
  from assms obtain df where f: "fetch_candles (tzdb e) (yf_download e) = Inr df"
    by (cases "fetch_candles (tzdb e) (yf_download e)") (auto simp: main_def)
  from fetch_candles_InrD(1) [OF f] show "rows (yf_download e) \<noteq> []" .
  from assms f obtain n s where l: "load_to_db (load_connect_ok e) (execute_faults e)
      (commit_raises e) (initial_db e) df = Inr (n, s)"
    by (cases "load_to_db (load_connect_ok e) (execute_faults e) (commit_raises e)
                 (initial_db e) df") (auto simp: main_def split: prod.splits)
  then show "load_connect_ok e" by (auto simp: load_to_db_def split: if_splits)
  from assms f l show "verify_connect_ok e" and "verify_execute_ok e"
    by (auto simp: main_def verify_def split: if_splits)
qed

lemma final_db_no_connect:
  "\<not> load_connect_ok e \<Longrightarrow> final_db (main e) = initial_db e"
  by (simp add: final_db_main load_to_db_False db_after_def split: sum.splits)

text \<open>
  Runs that end with status 1 although the download is not empty and both connections
  succeed: an infinite volume, a commit that raises, and a query of \<open>verify\<close> that
  raises.
\<close>

lemma other_uncaught_exceptions:
  "stopped (main \<lparr>yf_download = \<lparr>tz = None, rows = [(bar 20000)\<lparr>Volume := PosInf\<rparr>]\<rparr>,
      tzdb = war_time, load_connect_ok = True, execute_faults = (\<lambda>n. None),
      commit_raises = (\<lambda>i. False), verify_connect_ok = True, verify_execute_ok = True,
      initial_db = []\<rparr>) = Some IntCastingNaNError
   \<and> stopped (main \<lparr>yf_download = \<lparr>tz = None, rows = [bar 20000]\<rparr>,
      tzdb = war_time, load_connect_ok = True, execute_faults = (\<lambda>n. None),
      commit_raises = (\<lambda>i. True), verify_connect_ok = True, verify_execute_ok = True,
      initial_db = []\<rparr>) = Some Psycopg2Error
   \<and> stopped (main \<lparr>yf_download = \<lparr>tz = None, rows = [bar 20000]\<rparr>,
      tzdb = war_time, load_connect_ok = True, execute_faults = (\<lambda>n. None),
      commit_raises = (\<lambda>i. False), verify_connect_ok = True, verify_execute_ok = False,
      initial_db = []\<rparr>) = Some Psycopg2Error"
  by (simp add: main_def fetch_eval load_to_db_one_batch BATCH_def verify_def)

subsection \<open>Counting inserted and skipped rows\<close>












text \<open>
  A batch the server rolled back does not keep its rows. Of 501 rows, the first has time
  1, the next 499 have time 2 and are rejected by the server, and the last has time 1
  again: the first row is counted as inserted and rolled back with its batch, and the
  last row, in the second batch, is inserted again.
\<close>

lemma insert_batch_in_aborted:
  assumes "aborted c"
  shows "table (insert_batch f i xs c) = table c"
    and "inserted (insert_batch f i xs c) = inserted c"
    and "skipped (insert_batch f i xs c) = skipped c + length xs"
    and "aborted (insert_batch f i xs c)"
  using assms
  by (induction xs arbitrary: i c) (simp_all add: insert_row_simps)

lemma rolled_back_rows_are_inserted_again:
  "returned_counts
     (load_to_db True (\<lambda>n. if 1 \<le> n \<and> n < 500 then Some ServerError else None) (\<lambda>i. False) []
        \<lparr>tz = None, rows = row 1 # row 2 # replicate 498 (row 2) @ [row 1]\<rparr>) = Some (2, 499)
   \<and> db_after
     (load_to_db True (\<lambda>n. if 1 \<le> n \<and> n < 500 then Some ServerError else None) (\<lambda>i. False) []
        \<lparr>tz = None, rows = row 1 # row 2 # replicate 498 (row 2) @ [row 1]\<rparr>)
       = [bind_params (row 1)]"
  by (simp add: load_to_db_True load_batches_step load_batches_done BATCH_def
      returned_counts_def db_after_def insert_row_simps insert_batch_in_aborted)

section \<open>The claims\<close>

text \<open>
  C4. In every table reachable by runs of the loader, the pair (symbol, candle\_time) is
  unique across rows: starting from a table whose keys are pairwise distinct (the empty
  table is one), any sequence of \<open>load_to_db\<close> calls, whatever their dataframes,
  connection outcomes, faults and raising commits, leaves the keys pairwise distinct.
\<close>

theorem key_unique_in_reachable_tables:
  "distinct (map key t) \<Longrightarrow> distinct (map key (loader_runs t runs))"
proof (induction runs arbitrary: t)
  case Nil
  then show ?case by simp
next
  case (Cons run runs)
  obtain ok f g df where run: "run = (ok, f, g, df)"
    by (cases run) auto
  from db_after_load_to_db [of ok f g t df] Cons.prems
  have "distinct (map key (db_after (load_to_db ok f g t df)))"
    by auto
  then show ?case
    unfolding run by (simp add: Cons.IH)
qed

theorem key_unique_in_reachable_tables_witness:
  "distinct (map key ([] :: replay_candles)) \<and>
   loader_runs []
     [(True, \<lambda>n. None, \<lambda>i. False, \<lparr>tz = None, rows = [row 0, row 0, row 5]\<rparr>),
      (True, \<lambda>n. if n = 0 then Some ServerError else None, \<lambda>i. False,
       \<lparr>tz = None, rows = [row 7, row 5]\<rparr>),
      (True, \<lambda>n. if n = 0 then Some ClientError else None, \<lambda>i. False,
       \<lparr>tz = None, rows = [row 5, row 8]\<rparr>)]
     = [bind_params (row 0), bind_params (row 5), bind_params (row 8)] \<and>
   distinct (map key (loader_runs []
     [(True, \<lambda>n. None, \<lambda>i. False, \<lparr>tz = None, rows = [row 0, row 0, row 5]\<rparr>),
      (True, \<lambda>n. if n = 0 then Some ServerError else None, \<lambda>i. False,
       \<lparr>tz = None, rows = [row 7, row 5]\<rparr>),
      (True, \<lambda>n. if n = 0 then Some ClientError else None, \<lambda>i. False,
       \<lparr>tz = None, rows = [row 5, row 8]\<rparr>)]))"
  using key_unique_in_reachable_tables
    [of "[]" "[(True, \<lambda>n. None, \<lambda>i. False, \<lparr>tz = None, rows = [row 0, row 0, row 5]\<rparr>),
      (True, \<lambda>n. if n = 0 then Some ServerError else None, \<lambda>i. False,
       \<lparr>tz = None, rows = [row 7, row 5]\<rparr>),
      (True, \<lambda>n. if n = 0 then Some ClientError else None, \<lambda>i. False,
       \<lparr>tz = None, rows = [row 5, row 8]\<rparr>)]"]
  by (simp add: load_eval)

text \<open>
  C2. If the fetch stage returns an empty result set, the run stops with
  \<open>sys.exit(1)\<close> before \<open>load_to_db\<close> is called: the exit status is 1, nothing is
  returned by the loader and the table is the one the run started with.
\<close>

theorem empty_fetch_exits_before_any_write:
  "rows (yf_download e) = [] \<Longrightarrow>
   main e = \<lparr>stopped = Some (SystemExit 1), returned = None, final_db = initial_db e\<rparr>
   \<and> exit_status (stopped (main e)) = 1"
  by (simp add: main_def fetch_candles_empty)

theorem empty_fetch_exits_before_any_write_witness:
  "rows (yf_download \<lparr>yf_download = \<lparr>tz = None, rows = []\<rparr>, tzdb = war_time,
      load_connect_ok = True, execute_faults = (\<lambda>n. None), commit_raises = (\<lambda>i. False),
      verify_connect_ok = True, verify_execute_ok = True,
      initial_db = [bind_params (row 0)]\<rparr>) = []
   \<and> final_db (main \<lparr>yf_download = \<lparr>tz = None, rows = []\<rparr>, tzdb = war_time,
      load_connect_ok = True, execute_faults = (\<lambda>n. None), commit_raises = (\<lambda>i. False),
      verify_connect_ok = True, verify_execute_ok = True,
      initial_db = [bind_params (row 0)]\<rparr>) = [bind_params (row 0)]
   \<and> exit_status (stopped (main \<lparr>yf_download = \<lparr>tz = None, rows = []\<rparr>, tzdb = war_time,
      load_connect_ok = True, execute_faults = (\<lambda>n. None), commit_raises = (\<lambda>i. False),
      verify_connect_ok = True, verify_execute_ok = True,
      initial_db = [bind_params (row 0)]\<rparr>)) = 1"
  using empty_fetch_exits_before_any_write
    [of "\<lparr>yf_download = \<lparr>tz = None, rows = []\<rparr>, tzdb = war_time,
      load_connect_ok = True, execute_faults = (\<lambda>n. None), commit_raises = (\<lambda>i. False),
      verify_connect_ok = True, verify_execute_ok = True,
      initial_db = [bind_params (row 0)]\<rparr>"]
  by simp

text \<open>
  C9. Every \<open>candle_time\<close> returned by \<open>fetch_candles\<close> is a naive timestamp denoting
  UTC: the returned column has no timezone, and each value is the UTC instant of the
  provider's timestamp. An aware timestamp is kept as the instant it is; a naive one is
  read as Asia/Kolkata local time, which from 1970 on is 5 h 30 min ahead of UTC and
  before that what the tz database says.
\<close>

theorem candle_time_is_naive_utc:
  "fetch_candles db d = Inr df \<Longrightarrow>
   tz df = None
   \<and> map (\<lambda>c. Some (candle_time c)) (rows df)
       = map (\<lambda>r. utc_instant db (tz d) (Datetime r)) (filter (notna \<circ> rename) (rows d))
   \<and> (tz d \<noteq> None \<longrightarrow>
        map candle_time (rows df) = map Datetime (filter (notna \<circ> rename) (rows d)))
   \<and> (tz d = None \<and> (\<forall>r \<in> set (rows d). 0 \<le> Datetime r) \<longrightarrow>
        map candle_time (rows df)
          = map (\<lambda>r. Datetime r - 19800) (filter (notna \<circ> rename) (rows d)))"
proof -
  assume a: "fetch_candles db d = Inr df"
  let ?kept = "filter (notna \<circ> rename) (rows d)"
  from fetch_candles_InrD [OF a]
  have t: "tz df = None" and l: "list_all2 (fetched db (tz d)) ?kept (rows df)"
    by simp_all
  have 1: "map (\<lambda>c. Some (candle_time c)) (rows df)
      = map (\<lambda>r. utc_instant db (tz d) (Datetime r)) ?kept"
    by (rule sym, rule list_all2_map_eq [OF l]) (simp add: fetched_def)
  have 2: "map candle_time (rows df) = map Datetime ?kept" if "tz d \<noteq> None"
  proof (rule sym, rule list_all2_map_eq [OF l])
    fix r c assume "fetched db (tz d) r c"
    with that show "Datetime r = candle_time c"
      by (auto simp: fetched_def utc_instant_def)
  qed
  have 3: "map candle_time (rows df) = map (\<lambda>r. Datetime r - 19800) ?kept"
    if "tz d = None" "\<forall>r \<in> set (rows d). 0 \<le> Datetime r"
  proof -
    have "list_all2 (\<lambda>r c. Datetime r - 19800 = candle_time c) ?kept (rows df)"
    proof (rule list.rel_mono_strong [OF l])
      fix r c assume "r \<in> set ?kept" "c \<in> set (rows df)" "fetched db (tz d) r c"
      with that show "Datetime r - 19800 = candle_time c"
        by (auto simp: fetched_def utc_instant_def)
    qed
    then show ?thesis
      by (intro sym [OF list_all2_map_eq]) auto
  qed
  from t 1 2 3 show ?thesis by blast
qed

theorem candle_time_is_naive_utc_witness:
  "fetch_candles war_time \<lparr>tz = Some Asia_Kolkata, rows = [bar 1000, gap 1300, bar 1600]\<rparr>
     = Inr \<lparr>tz = None, rows = [row 1000, row 1600]\<rparr>
   \<and> fetch_candles war_time \<lparr>tz = None, rows = [bar 20000, gap 20300, bar 20600]\<rparr>
     = Inr \<lparr>tz = None, rows = [row 200, row 800]\<rparr>
   \<and> fetch_candles war_time \<lparr>tz = None, rows = [bar (- 852076800)]\<rparr>
     = Inr \<lparr>tz = None, rows = [row (- 852100200)]\<rparr>
   \<and> map candle_time [row 200, row 800] = map (\<lambda>r. Datetime r - 19800) [bar 20000, bar 20600]
   \<and> map candle_time [row 1000, row 1600] = map Datetime [bar 1000, bar 1600]
   \<and> map (\<lambda>c. Some (candle_time c)) [row (- 852100200)]
       = map (\<lambda>r. utc_instant war_time None (Datetime r)) [bar (- 852076800)]"
proof -
  have a: "fetch_candles war_time \<lparr>tz = Some Asia_Kolkata, rows = [bar 1000, gap 1300, bar 1600]\<rparr>
     = Inr \<lparr>tz = None, rows = [row 1000, row 1600]\<rparr>"
    by (simp add: fetch_eval)
  have b: "fetch_candles war_time \<lparr>tz = None, rows = [bar 20000, gap 20300, bar 20600]\<rparr>
     = Inr \<lparr>tz = None, rows = [row 200, row 800]\<rparr>"
    by (simp add: fetch_eval)
  have c: "fetch_candles war_time \<lparr>tz = None, rows = [bar (- 852076800)]\<rparr>
     = Inr \<lparr>tz = None, rows = [row (- 852100200)]\<rparr>"
    by (simp add: fetch_eval war_time_def)
  from candle_time_is_naive_utc [OF a] candle_time_is_naive_utc [OF b]
    candle_time_is_naive_utc [OF c] a b c
  show ?thesis by (simp add: notna_def rename_def bar_def gap_def)
qed

text \<open>
  C8, as stated: for every provider response on which \<open>fetch_candles\<close> returns, the
  returned rows are ascending by \<open>candle_time\<close>. The function never sorts, so a response
  whose rows are out of order comes back out of order.
\<close>

theorem fetch_candles_unsorted_counterexample:
  "fetch_candles war_time \<lparr>tz = Some Asia_Kolkata, rows = [bar 600, bar 300]\<rparr>
     = Inr \<lparr>tz = None, rows = [row 600, row 300]\<rparr>
   \<and> \<not> sorted (map candle_time (rows \<lparr>tz = (None :: zone option), rows = [row 600, row 300]\<rparr>))"
  by (simp add: fetch_eval)

text \<open>
  C8, amended: \<open>fetch_candles\<close> keeps the provider's order. If the rows of the provider
  response are ascending by timestamp, the returned rows are ascending by
  \<open>candle_time\<close>: for an aware response, for a naive one from 1970 on, and for any naive
  one under a tz database in which a later wall-clock reading never denotes an earlier
  instant.
\<close>

theorem fetch_candles_keeps_ascending_order:
  assumes "sorted (map Datetime (rows d))"
    and "tz d \<noteq> None \<or> (\<forall>r \<in> set (rows d). 0 \<le> Datetime r) \<or> order_preserving db"
    and "fetch_candles db d = Inr df"
  shows "sorted (map candle_time (rows df))"
proof -
  let ?kept = "filter (notna \<circ> rename) (rows d)"
  from fetch_candles_InrD [OF assms(3)]
  have l: "list_all2 (fetched db (tz d)) ?kept (rows df)" by simp
  from assms(1) have s: "sorted (map Datetime ?kept)" by (rule sorted_map_filter)
  show ?thesis
  proof (rule sorted_list_all2 [OF l s])
    fix r r' c c'
    assume r: "r \<in> set ?kept" "r' \<in> set ?kept"
      and f: "fetched db (tz d) r c" "fetched db (tz d) r' c'"
      and le: "Datetime r \<le> Datetime r'"
    from f have u: "utc_instant db (tz d) (Datetime r) = Some (candle_time c)"
        "utc_instant db (tz d) (Datetime r') = Some (candle_time c')"
      by (simp_all add: fetched_def)
    show "candle_time c \<le> candle_time c'"
    proof (cases "tz d")
      case (Some z)
      with u le show ?thesis by (simp add: utc_instant_def)
    next
      case None
      with assms(2) consider "\<forall>r \<in> set (rows d). 0 \<le> Datetime r" | "order_preserving db"
        by auto
      then show ?thesis
      proof cases
        case 1
        with r have "0 \<le> Datetime r" "0 \<le> Datetime r'" by simp_all
        with u le None show ?thesis by (simp add: utc_instant_def)
      next
        case 2
        then have op: "\<And>a b u v. a \<le> b \<Longrightarrow> utc_instant db None a = Some u \<Longrightarrow>
            utc_instant db None b = Some v \<Longrightarrow> u \<le> v"
          unfolding order_preserving_def by blast
        from u None have "utc_instant db None (Datetime r) = Some (candle_time c)"
            "utc_instant db None (Datetime r') = Some (candle_time c')"
          by simp_all
        with le show ?thesis by (rule op)
      qed
    qed
  qed
qed

theorem fetch_candles_keeps_ascending_order_witness:
  "sorted (map Datetime [bar (- 852076800), gap 20300, bar 20600])
   \<and> order_preserving war_time
   \<and> fetch_candles war_time \<lparr>tz = None, rows = [bar (- 852076800), gap 20300, bar 20600]\<rparr>
       = Inr \<lparr>tz = None, rows = [row (- 852100200), row 800]\<rparr>
   \<and> sorted (map candle_time [row (- 852100200), row 800])"
proof -
  have s: "sorted (map Datetime (rows \<lparr>tz = (None :: zone option),
      rows = [bar (- 852076800), gap 20300, bar 20600]\<rparr>))"
    by (simp add: bar_def gap_def)
  have o: "tz \<lparr>tz = (None :: zone option), rows = [bar (- 852076800), gap 20300, bar 20600]\<rparr> \<noteq> None
      \<or> (\<forall>r \<in> set (rows \<lparr>tz = (None :: zone option),
            rows = [bar (- 852076800), gap 20300, bar 20600]\<rparr>). 0 \<le> Datetime r)
      \<or> order_preserving war_time"
    by (simp add: order_preserving_war_time)
  have b: "fetch_candles war_time \<lparr>tz = None, rows = [bar (- 852076800), gap 20300, bar 20600]\<rparr>
     = Inr \<lparr>tz = None, rows = [row (- 852100200), row 800]\<rparr>"
    by (simp add: fetch_eval war_time_def)
  from fetch_candles_keeps_ascending_order [OF s o b] s b show ?thesis
    by (simp add: order_preserving_war_time)
qed

text \<open>
  C6, as stated: the process exits with status 1 exactly when the fetch returns no data
  or the connection in \<open>load_to_db\<close> fails, and every run that passes both reaches the
  end of the script with status 0. A run whose fetch returned data and whose loader
  connected, but whose connection in \<open>verify\<close> fails, is stopped by the exception that
  \<open>verify\<close> does not catch, after the loader has returned; the interpreter exits with
  status 1.
\<close>

theorem verify_connect_failure_counterexample:
  "rows (yf_download \<lparr>yf_download = \<lparr>tz = None, rows = [bar 20000]\<rparr>, tzdb = war_time,
      load_connect_ok = True, execute_faults = (\<lambda>n. None), commit_raises = (\<lambda>i. False),
      verify_connect_ok = False, verify_execute_ok = True, initial_db = []\<rparr>) \<noteq> []
   \<and> load_connect_ok \<lparr>yf_download = \<lparr>tz = None, rows = [bar 20000]\<rparr>, tzdb = war_time,
      load_connect_ok = True, execute_faults = (\<lambda>n. None), commit_raises = (\<lambda>i. False),
      verify_connect_ok = False, verify_execute_ok = True, initial_db = []\<rparr>
   \<and> stopped (main \<lparr>yf_download = \<lparr>tz = None, rows = [bar 20000]\<rparr>, tzdb = war_time,
      load_connect_ok = True, execute_faults = (\<lambda>n. None), commit_raises = (\<lambda>i. False),
      verify_connect_ok = False, verify_execute_ok = True, initial_db = []\<rparr>)
       = Some OperationalError
   \<and> returned (main \<lparr>yf_download = \<lparr>tz = None, rows = [bar 20000]\<rparr>, tzdb = war_time,
      load_connect_ok = True, execute_faults = (\<lambda>n. None), commit_raises = (\<lambda>i. False),
      verify_connect_ok = False, verify_execute_ok = True, initial_db = []\<rparr>) = Some (1, 0)
   \<and> exit_status (stopped (main \<lparr>yf_download = \<lparr>tz = None, rows = [bar 20000]\<rparr>,
      tzdb = war_time, load_connect_ok = True, execute_faults = (\<lambda>n. None),
      commit_raises = (\<lambda>i. False), verify_connect_ok = False, verify_execute_ok = True,
      initial_db = []\<rparr>)) = 1"
  by (simp add: main_def fetch_eval load_to_db_one_batch BATCH_def verify_def insert_row_def
      execute_insert_def)

text \<open>
  C6, amended: the process exits with status 1 whenever the fetch returns no data or a
  database connection fails, the one opened by \<open>load_to_db\<close> (caught, \<open>sys.exit(1)\<close>,
  nothing written) or the one opened by \<open>verify\<close> (not caught, the exception ends the
  run). These are not the only runs that end with status 1, as any other uncaught
  exception does the same; a run ends with status 0 only if it ran to its end, and then
  the fetch returned data and both connections succeeded.
\<close>

theorem fetch_or_connect_failure_exits_1:
  "(rows (yf_download e) = [] \<or> \<not> load_connect_ok e \<or> \<not> verify_connect_ok e
      \<longrightarrow> exit_status (stopped (main e)) = 1)
   \<and> (\<not> load_connect_ok e \<longrightarrow> final_db (main e) = initial_db e)
   \<and> (exit_status (stopped (main e)) = 0 \<longrightarrow>
        stopped (main e) = None \<and> rows (yf_download e) \<noteq> [] \<and> load_connect_ok e
        \<and> verify_connect_ok e)"
proof -
  have a: "stopped (main e) = None \<or> exit_status (stopped (main e)) = 1"
    by (rule exit_status_main)
  have b: "rows (yf_download e) \<noteq> [] \<and> load_connect_ok e \<and> verify_connect_ok e"
    if "stopped (main e) = None"
    using stopped_main_None [OF that] by simp
  have c: "\<not> load_connect_ok e \<longrightarrow> final_db (main e) = initial_db e"
    by (simp add: final_db_no_connect)
  from a b c show ?thesis by auto
qed

theorem fetch_or_connect_failure_exits_1_witness:
  "exit_status (stopped (main \<lparr>yf_download = \<lparr>tz = None, rows = []\<rparr>, tzdb = war_time,
      load_connect_ok = True, execute_faults = (\<lambda>n. None), commit_raises = (\<lambda>i. False),
      verify_connect_ok = True, verify_execute_ok = True, initial_db = []\<rparr>)) = 1
   \<and> exit_status (stopped (main \<lparr>yf_download = \<lparr>tz = None, rows = [bar 20000]\<rparr>,
      tzdb = war_time, load_connect_ok = False, execute_faults = (\<lambda>n. None),
      commit_raises = (\<lambda>i. False), verify_connect_ok = True, verify_execute_ok = True,
      initial_db = [bind_params (row 0)]\<rparr>)) = 1
   \<and> final_db (main \<lparr>yf_download = \<lparr>tz = None, rows = [bar 20000]\<rparr>,
      tzdb = war_time, load_connect_ok = False, execute_faults = (\<lambda>n. None),
      commit_raises = (\<lambda>i. False), verify_connect_ok = True, verify_execute_ok = True,
      initial_db = [bind_params (row 0)]\<rparr>) = [bind_params (row 0)]
   \<and> exit_status (stopped (main \<lparr>yf_download = \<lparr>tz = None, rows = [bar 20000]\<rparr>,
      tzdb = war_time, load_connect_ok = True, execute_faults = (\<lambda>n. None),
      commit_raises = (\<lambda>i. False), verify_connect_ok = True, verify_execute_ok = True,
      initial_db = []\<rparr>)) = 0
   \<and> stopped (main \<lparr>yf_download = \<lparr>tz = None, rows = [bar 20000]\<rparr>,
      tzdb = war_time, load_connect_ok = True, execute_faults = (\<lambda>n. None),
      commit_raises = (\<lambda>i. False), verify_connect_ok = True, verify_execute_ok = True,
      initial_db = []\<rparr>) = None"
proof -
  let ?ok = "\<lparr>yf_download = \<lparr>tz = None, rows = [bar 20000]\<rparr>,
      tzdb = war_time, load_connect_ok = True, execute_faults = (\<lambda>n. None),
      commit_raises = (\<lambda>i. False), verify_connect_ok = True, verify_execute_ok = True,
      initial_db = []\<rparr>"
  have z: "exit_status (stopped (main ?ok)) = 0"
    by (simp add: main_def fetch_eval load_to_db_one_batch BATCH_def verify_def)
  from fetch_or_connect_failure_exits_1
      [of "\<lparr>yf_download = \<lparr>tz = None, rows = []\<rparr>, tzdb = war_time,
        load_connect_ok = True, execute_faults = (\<lambda>n. None), commit_raises = (\<lambda>i. False),
        verify_connect_ok = True, verify_execute_ok = True, initial_db = []\<rparr>"]
    fetch_or_connect_failure_exits_1
      [of "\<lparr>yf_download = \<lparr>tz = None, rows = [bar 20000]\<rparr>,
        tzdb = war_time, load_connect_ok = False, execute_faults = (\<lambda>n. None),
        commit_raises = (\<lambda>i. False), verify_connect_ok = True, verify_execute_ok = True,
        initial_db = [bind_params (row 0)]\<rparr>"]
    fetch_or_connect_failure_exits_1 [of ?ok] z
  show ?thesis by simp
qed

text \<open>
  C3. No row with a null open, high, low or close is ever persisted: the rows
  \<open>fetch_candles\<close> returns are the provider's rows without those that have a NaN in one
  of the four price columns, so all of them have the four prices, and every row of the
  table after a run was either there before the run or has the four prices.
\<close>

theorem null_ohlc_never_persisted:
  "(\<forall>df. fetch_candles (tzdb e) (yf_download e) = Inr df \<longrightarrow>
      (\<forall>r \<in> set (rows df). notna r)
      \<and> length (rows df) = length (filter (notna \<circ> rename) (rows (yf_download e))))
   \<and> (\<forall>c \<in> set (final_db (main e)). c \<in> set (initial_db e) \<or> notna c)"
proof -
  have a: "(\<forall>r \<in> set (rows df). notna r)
      \<and> length (rows df) = length (filter (notna \<circ> rename) (rows (yf_download e)))"
    if f: "fetch_candles (tzdb e) (yf_download e) = Inr df" for df
  proof -
    let ?kept = "filter (notna \<circ> rename) (rows (yf_download e))"
    from fetch_candles_InrD [OF f]
    have l: "list_all2 (fetched (tzdb e) (tz (yf_download e))) ?kept (rows df)" by simp
    have "notna c" if "c \<in> set (rows df)" for c
    proof -
      from list_all2_set2 [OF l that] obtain r where "r \<in> set ?kept"
          "fetched (tzdb e) (tz (yf_download e)) r c"
        by blast
      then show ?thesis by (simp add: fetched_def notna_def rename_def)
    qed
    moreover from l have "length (rows df) = length ?kept"
      by (simp add: list_all2_lengthD)
    ultimately show ?thesis by simp
  qed
  have b: "c \<in> set (initial_db e) \<or> notna c" if c: "c \<in> set (final_db (main e))" for c
  proof (cases "fetch_candles (tzdb e) (yf_download e)")
    case (Inl x)
    with c show ?thesis by (simp add: final_db_main)
  next
    case (Inr df)
    obtain new where new: "db_after (load_to_db (load_connect_ok e) (execute_faults e)
          (commit_raises e) (initial_db e) df) = initial_db e @ new"
        "set new \<subseteq> bind_params ` set (rows df)"
      using db_after_load_to_db [of "load_connect_ok e" "execute_faults e" "commit_raises e"
          "initial_db e" df] by blast
    from c Inr new(1) have "c \<in> set (initial_db e) \<or> c \<in> set new"
      by (simp add: final_db_main)
    then show ?thesis
    proof
      assume "c \<in> set (initial_db e)"
      then show ?thesis ..
    next
      assume "c \<in> set new"
      with new(2) obtain r where "r \<in> set (rows df)" "c = bind_params r" by blast
      with a [OF Inr] show ?thesis by simp
    qed
  qed
  from a b show ?thesis by blast
qed

theorem null_ohlc_never_persisted_witness:
  "fetch_candles war_time \<lparr>tz = None, rows = [bar 20000, gap 20300]\<rparr>
     = Inr \<lparr>tz = None, rows = [row 200]\<rparr>
   \<and> final_db (main \<lparr>yf_download = \<lparr>tz = None, rows = [bar 20000, gap 20300]\<rparr>,
      tzdb = war_time, load_connect_ok = True, execute_faults = (\<lambda>n. None),
      commit_raises = (\<lambda>i. False), verify_connect_ok = True, verify_execute_ok = True,
      initial_db = []\<rparr>) = [bind_params (row 200)]
   \<and> notna (bind_params (row 200))
   \<and> length (filter (notna \<circ> rename) [bar 20000, gap 20300]) = 1"
proof -
  let ?e = "\<lparr>yf_download = \<lparr>tz = None, rows = [bar 20000, gap 20300]\<rparr>,
      tzdb = war_time, load_connect_ok = True, execute_faults = (\<lambda>n. None),
      commit_raises = (\<lambda>i. False), verify_connect_ok = True, verify_execute_ok = True,
      initial_db = []\<rparr>"
  have f: "fetch_candles war_time \<lparr>tz = None, rows = [bar 20000, gap 20300]\<rparr>
      = Inr \<lparr>tz = None, rows = [row 200]\<rparr>"
    by (simp add: fetch_eval)
  have b: "final_db (main ?e) = [bind_params (row 200)]"
    by (simp add: final_db_main f load_eval)
  from null_ohlc_never_persisted [of ?e] f b show ?thesis by simp
qed

text \<open>
  C10. Every row the loader writes carries the symbol \<open>NIFTY50\<close>, whatever the
  dataframe: a call of \<open>load_to_db\<close>, however it ends, leaves the table it found with
  rows appended, each of them a row of the dataframe with \<open>symbol = SYMBOL\<close>. There are
  at most \<open>inserted\<close> of them, and exactly \<open>inserted\<close> when the server rejected no
  statement. \<open>verify\<close> reports the rows of the table that have this symbol and no
  others: its count is the number of such rows that were there before plus the number of
  appended rows, and its earliest and latest time bound the time of every appended row.
\<close>

theorem loader_writes_only_SYMBOL:
  "\<exists>new. db_after (load_to_db ok f g t df) = t @ new
     \<and> set new \<subseteq> bind_params ` set (rows df)
     \<and> (\<forall>c \<in> set new. symbol c = SYMBOL)
     \<and> (\<forall>n s. load_to_db ok f g t df = Inr (n, s) \<longrightarrow> length new \<le> fst n)
     \<and> ((\<forall>k < length (rows df). f k \<noteq> Some ServerError) \<longrightarrow>
          (\<forall>n s. load_to_db ok f g t df = Inr (n, s) \<longrightarrow> length new = fst n))
     \<and> verified_count (verify True True (t @ new))
          = length (filter (\<lambda>c. symbol c = SYMBOL) t) + length new
     \<and> (new \<noteq> [] \<longrightarrow> verify True True (t @ new) \<noteq> Inr None)
     \<and> (\<forall>n lo hi. verify True True (t @ new) = Inr (Some (SYMBOL, n, lo, hi)) \<longrightarrow>
          (\<forall>c \<in> set new. lo \<le> candle_time c \<and> candle_time c \<le> hi))"
proof -
  obtain new where new: "db_after (load_to_db ok f g t df) = t @ new"
      "set new \<subseteq> bind_params ` set (rows df)"
      "\<forall>n s. load_to_db ok f g t df = Inr (n, s) \<longrightarrow> length new \<le> fst n"
    using db_after_load_to_db [of ok f g t df] by blast
  from new(2) have sym: "\<forall>c \<in> set new. symbol c = SYMBOL" by auto
  then have fl: "filter (\<lambda>c. symbol c = SYMBOL) new = new" by simp
  have eq: "length new = fst n"
    if nse: "\<forall>k < length (rows df). f k \<noteq> Some ServerError"
      and r: "load_to_db ok f g t df = Inr (n, s)" for n s
  proof -
    from load_to_db_no_server_error [OF r nse]
    have c: "cur s = insert_batch f 0 (rows df) (cur (connect t))"
      and k: "committed s = table (cur s)"
      by simp_all
    obtain more where more:
        "table (insert_batch f 0 (rows df) (cur (connect t))) = table (cur (connect t)) @ more"
        "inserted (insert_batch f 0 (rows df) (cur (connect t)))
           = inserted (cur (connect t)) + length more"
      using insert_batch_grows [of f 0 "rows df" "cur (connect t)"] by blast
    from new(1) r k c more(1) have "new = more" by (simp add: db_after_def)
    with load_to_db_InrD [OF r] c more(2) show ?thesis by simp
  qed
  have cnt: "verified_count (verify True True (t @ new))
      = length (filter (\<lambda>c. symbol c = SYMBOL) t) + length new"
    by (simp add: verified_count_verify fl)
  have ne: "verify True True (t @ new) \<noteq> Inr None" if "new \<noteq> []"
    using that by (simp add: verify_def fl)
  have bd: "lo \<le> candle_time c \<and> candle_time c \<le> hi"
    if v: "verify True True (t @ new) = Inr (Some (SYMBOL, n, lo, hi))" and c: "c \<in> set new"
    for n lo hi c
  proof -
    let ?S = "candle_time ` {c \<in> set (t @ new). symbol c = SYMBOL}"
    from c sym have m: "candle_time c \<in> ?S" by auto
    have f: "finite ?S" by simp
    from verify_bounds [OF v] have "lo = Min ?S" "hi = Max ?S" by simp_all
    with m f show ?thesis by (simp only: Min_le Max_ge)
  qed
  have eq': "(\<forall>k < length (rows df). f k \<noteq> Some ServerError) \<longrightarrow>
      (\<forall>n s. load_to_db ok f g t df = Inr (n, s) \<longrightarrow> length new = fst n)"
    using eq by blast
  have ne': "new \<noteq> [] \<longrightarrow> verify True True (t @ new) \<noteq> Inr None"
    using ne by blast
  have bd': "\<forall>n lo hi. verify True True (t @ new) = Inr (Some (SYMBOL, n, lo, hi)) \<longrightarrow>
      (\<forall>c \<in> set new. lo \<le> candle_time c \<and> candle_time c \<le> hi)"
    using bd by blast
  from new(1) new(2) sym new(3) eq' cnt ne' bd' show ?thesis
    by (intro exI [of _ new] conjI) assumption+
qed

theorem loader_writes_only_SYMBOL_witness:
  "db_after (load_to_db True (\<lambda>n. None) (\<lambda>i. False) [(bind_params (row 0))\<lparr>symbol := ''SENSEX''\<rparr>]
      \<lparr>tz = None, rows = [row 0, row 5, row 0]\<rparr>)
     = [(bind_params (row 0))\<lparr>symbol := ''SENSEX''\<rparr>, bind_params (row 0), bind_params (row 5)]
   \<and> returned_counts (load_to_db True (\<lambda>n. None) (\<lambda>i. False)
        [(bind_params (row 0))\<lparr>symbol := ''SENSEX''\<rparr>] \<lparr>tz = None, rows = [row 0, row 5, row 0]\<rparr>)
     = Some (2, 1)
   \<and> verified_count (verify True True
        [(bind_params (row 0))\<lparr>symbol := ''SENSEX''\<rparr>, bind_params (row 0), bind_params (row 5)])
     = 2
   \<and> db_after (load_to_db True (\<lambda>n. if n = 1 then Some ServerError else None) (\<lambda>i. False) []
        \<lparr>tz = None, rows = [row 0, row 5, row 7]\<rparr>) = []
   \<and> returned_counts (load_to_db True (\<lambda>n. if n = 1 then Some ServerError else None)
        (\<lambda>i. False) [] \<lparr>tz = None, rows = [row 0, row 5, row 7]\<rparr>) = Some (1, 2)
   \<and> verified_count (verify True True []) = 0"
proof -
  let ?t = "[(bind_params (row 0))\<lparr>symbol := ''SENSEX''\<rparr>]"
  let ?df = "\<lparr>tz = None, rows = [row 0, row 5, row 0]\<rparr>"
  let ?f = "\<lambda>n :: nat. if n = 1 then Some ServerError else None"
  let ?df2 = "\<lparr>tz = None, rows = [row 0, row 5, row 7]\<rparr>"
  have a: "db_after (load_to_db True (\<lambda>n. None) (\<lambda>i. False) ?t ?df)
      = ?t @ [bind_params (row 0), bind_params (row 5)]"
    by (simp add: load_eval SYMBOL_def)
  have b: "returned_counts (load_to_db True (\<lambda>n. None) (\<lambda>i. False) ?t ?df) = Some (2, 1)"
    by (simp add: load_eval SYMBOL_def)
  have c: "db_after (load_to_db True ?f (\<lambda>i. False) [] ?df2) = [] @ []"
    by (simp add: load_eval)
  have d: "returned_counts (load_to_db True ?f (\<lambda>i. False) [] ?df2) = Some (1, 2)"
    by (simp add: load_eval)
  from loader_writes_only_SYMBOL [of True "\<lambda>n. None" "\<lambda>i. False" ?t ?df]
  obtain new where new: "db_after (load_to_db True (\<lambda>n. None) (\<lambda>i. False) ?t ?df) = ?t @ new"
      "verified_count (verify True True (?t @ new))
         = length (filter (\<lambda>c. symbol c = SYMBOL) ?t) + length new"
    by blast
  from new(1) a have n: "new = [bind_params (row 0), bind_params (row 5)]" by simp
  from loader_writes_only_SYMBOL [of True ?f "\<lambda>i. False" "[]" ?df2]
  obtain new2 where new2: "db_after (load_to_db True ?f (\<lambda>i. False) [] ?df2) = new2"
      "verified_count (verify True True new2) = length new2"
    by auto
  from new2(1) c have n2: "new2 = []" by simp
  from new(2) new2(2) a b c d show ?thesis
    by (simp add: n n2 SYMBOL_def)
qed




text \<open>
  C1, as stated: for every dataframe, a second \<open>load_to_db\<close> on it returns
  \<open>inserted = 0\<close> and \<open>skipped\<close> equal to the number of rows. A row whose execute raised
  in the first call was counted as skipped and never reached the table, so the second
  call inserts it.
\<close>

theorem second_load_counterexample:
  "returned_counts (load_to_db True (\<lambda>n. Some ServerError) (\<lambda>i. False) []
      \<lparr>tz = None, rows = [row 0]\<rparr>) = Some (0, 1)
   \<and> db_after (load_to_db True (\<lambda>n. Some ServerError) (\<lambda>i. False) []
      \<lparr>tz = None, rows = [row 0]\<rparr>) = []
   \<and> returned_counts (load_to_db True (\<lambda>n. None) (\<lambda>i. False) []
      \<lparr>tz = None, rows = [row 0]\<rparr>) = Some (1, 0)"
  by (simp add: load_eval)

text \<open>
  C1, amended. If no execute raised in the first call, which returned, then a second
  call on the same dataframe leaves the table as the first call committed it, whatever
  goes wrong in it, and when its commits do not raise it returns \<open>inserted = 0\<close> and
  \<open>skipped\<close> equal to the number of rows.
\<close>

theorem second_load_inserts_nothing:
  assumes "load_to_db True f1 g1 t df = Inr (n1, s1)"
    and "\<forall>i < length (rows df). f1 i = None"
  shows "db_after (load_to_db True f2 g2 (committed s1) df) = committed s1
     \<and> (returned_counts (load_to_db True f2 g2 (committed s1) df) = None
        \<or> returned_counts (load_to_db True f2 g2 (committed s1) df)
            = Some (0, length (rows df)))
     \<and> ((\<forall>i < length (rows df). \<not> g2 i) \<longrightarrow>
          (\<exists>s2. load_to_db True f2 g2 (committed s1) df = Inr ((0, length (rows df)), s2)
                \<and> committed s2 = committed s1))"
proof -
  let ?T = "committed s1"
  let ?P = "\<lambda>s :: session. table (cur s) = ?T \<and> committed s = ?T \<and> inserted (cur s) = 0"
  from assms(2) have nse: "\<forall>k < length (rows df). f1 k \<noteq> Some ServerError" by simp
  from load_to_db_no_server_error [OF assms(1) nse]
  have T: "?T = table (insert_batch f1 0 (rows df) (cur (connect t)))" by simp
  have present: "key (bind_params r) \<in> key ` set ?T" if "r \<in> set (rows df)" for r
  proof -
    from assms(2) have "\<forall>n. 0 \<le> n \<and> n < 0 + length (rows df) \<longrightarrow> f1 n = None" by simp
    moreover have "\<not> aborted (cur (connect t))" by simp
    ultimately have "key (bind_params r)
        \<in> key ` set (table (insert_batch f1 0 (rows df) (cur (connect t))))"
      using that by (rule keys_insert_batch_no_faults)
    then show ?thesis by (simp only: T)
  qed
  have P1: "?P (run_batch f2 (rows df) i s)" if "?P s" for i s
  proof -
    let ?b = "take BATCH (drop i (rows df))"
    have "set ?b \<subseteq> set (rows df)"
      by (meson set_take_subset set_drop_subset subset_trans)
    with present that have "\<forall>r \<in> set ?b. key (bind_params r) \<in> key ` set (table (cur s))"
      by auto
    from insert_batch_all_present [OF this, of f2 i] that show ?thesis by simp
  qed
  have P2: "?P (commit s)" if "?P s" for s
    using that by simp
  have P3: "?P (print_progress (rows df) i s)" if "?P s" for i s
    using that by simp
  have inv: "case load_batches f2 g2 (rows df) 0 (connect ?T) of
      Inl (x, db) \<Rightarrow> (\<exists>s'. ?P s' \<and> db = committed s') | Inr s' \<Rightarrow> ?P s'"
    by (rule load_batches_invariant [of ?P "connect ?T" f2 "rows df" g2 0, OF _ P1 P2 P3])
       simp
  have R: "load_to_db True f2 g2 ?T df = Inr ((0, length (rows df)), s2) \<and> committed s2 = ?T"
    if lb: "load_batches f2 g2 (rows df) 0 (connect ?T) = Inr s2" for s2
  proof -
    from inv lb have p: "?P s2" by simp
    from counts_load_batches [OF lb] p have "skipped (cur s2) = length (rows df)" by simp
    with p lb show ?thesis by (simp add: load_to_db_True)
  qed
  show ?thesis
  proof (cases "load_batches f2 g2 (rows df) 0 (connect ?T)")
    case (Inl a)
    obtain x db where a: "a = (x, db)" by (cases a)
    from inv Inl a have "db = ?T" by auto
    moreover from load_batches_returns [of "rows df" g2 f2 0 "connect ?T"] Inl
    have "\<not> (\<forall>i < length (rows df). \<not> g2 i)" by auto
    ultimately show ?thesis
      using Inl a by (simp add: load_to_db_True db_after_def returned_counts_def)
  next
    case (Inr s2)
    from R [OF Inr] show ?thesis
      by (auto simp: db_after_def returned_counts_def)
  qed
qed

theorem second_load_inserts_nothing_witness:
  "returned_counts (load_to_db True (\<lambda>n. None) (\<lambda>i. False) []
      \<lparr>tz = None, rows = [row 0, row 5]\<rparr>) = Some (2, 0)
   \<and> db_after (load_to_db True (\<lambda>n. None) (\<lambda>i. False) []
      \<lparr>tz = None, rows = [row 0, row 5]\<rparr>) = [bind_params (row 0), bind_params (row 5)]
   \<and> returned_counts (load_to_db True (\<lambda>n. if n = 0 then Some ServerError else None) (\<lambda>i. False)
      [bind_params (row 0), bind_params (row 5)] \<lparr>tz = None, rows = [row 0, row 5]\<rparr>)
     = Some (0, 2)
   \<and> db_after (load_to_db True (\<lambda>n. if n = 0 then Some ServerError else None) (\<lambda>i. False)
      [bind_params (row 0), bind_params (row 5)] \<lparr>tz = None, rows = [row 0, row 5]\<rparr>)
     = [bind_params (row 0), bind_params (row 5)]"
proof -
  let ?df = "\<lparr>tz = None, rows = [row 0, row 5]\<rparr>"
  let ?f2 = "\<lambda>n :: nat. if n = 0 then Some ServerError else None"
  obtain s1 where s1: "load_to_db True (\<lambda>n. None) (\<lambda>i. False) [] ?df
      = Inr ((inserted (cur s1), skipped (cur s1)), s1)"
    using load_to_db_returns [of ?df "\<lambda>i. False" "\<lambda>n. None" "[]"] by auto
  have a: "returned_counts (load_to_db True (\<lambda>n. None) (\<lambda>i. False) [] ?df) = Some (2, 0)"
    by (simp add: load_eval)
  have b: "db_after (load_to_db True (\<lambda>n. None) (\<lambda>i. False) [] ?df)
      = [bind_params (row 0), bind_params (row 5)]"
    by (simp add: load_eval)
  from b s1 have c: "committed s1 = [bind_params (row 0), bind_params (row 5)]"
    by (simp add: db_after_def)
  have nf: "\<forall>i < length (rows ?df). (\<lambda>n. None :: fault option) i = None" by simp
  from second_load_inserts_nothing [OF s1 nf, of ?f2 "\<lambda>i. False"] a b
  show ?thesis by (auto simp: c returned_counts_def)
qed




end
